theory Spec2Isabelle
  imports Main
begin

unbundle bit_operations_syntax

section \<open>Python values used by uspsimb.py\<close>

text \<open>
  The program is Python 2: its integers are unbounded (\<open>int\<close>), its strings are byte
  strings (\<open>string\<close>), and every failed \<^verbatim>\<open>assert\<close>, out-of-range index and failed
  conversion raises. Each exception is a value of \<open>error\<close>, and every function that can
  raise returns \<open>error + 'a\<close> with \<open>Inl\<close> for the exception.
\<close>

datatype error =
  AssertionError | IndexError | ValueError | UnboundLocalError | OverflowError | TypeError

definition bind_err :: "error + 'a \<Rightarrow> ('a \<Rightarrow> error + 'b) \<Rightarrow> error + 'b" where
  "bind_err m f = (case m of Inl e \<Rightarrow> Inl e | Inr x \<Rightarrow> f x)"

text \<open>\<^verbatim>\<open>c.isdigit()\<close> on one byte: the ASCII digits 0x30 .. 0x39.\<close>

definition is_digit_char :: "char \<Rightarrow> bool" where
  "is_digit_char c = (48 \<le> (of_char c :: nat) \<and> (of_char c :: nat) \<le> 57)"

text \<open>\<^verbatim>\<open>s.isdigit()\<close>: every character is a digit and there is at least one.\<close>

definition isdigit :: "string \<Rightarrow> bool" where
  "isdigit s = (s \<noteq> [] \<and> list_all is_digit_char s)"

definition digit_val :: "char \<Rightarrow> int" where
  "digit_val c = int (of_char c) - 48"

text \<open>The decimal value of a string of digits, most significant digit first.\<close>

definition int_str :: "string \<Rightarrow> int" where
  "int_str s = foldl (\<lambda>a c. a * 10 + digit_val c) 0 s"

text \<open>
  \<^verbatim>\<open>int(s)\<close>. The program only converts strings that \<^verbatim>\<open>isdigit\<close> has accepted
  (the constructor asserts it for every field before any conversion); any other string is
  a \<^verbatim>\<open>ValueError\<close> here.
\<close>

definition py_int :: "string \<Rightarrow> error + int" where
  "py_int s = (if isdigit s then Inr (int_str s) else Inl ValueError)"

text \<open>
  \<^verbatim>\<open>xs[i]\<close> as Python reads it: \<open>0 .. len-1\<close> from the front, \<open>-len .. -1\<close> from
  the back, \<^verbatim>\<open>IndexError\<close> for every other index.
\<close>

definition getitem :: "'a list \<Rightarrow> int \<Rightarrow> error + 'a" where
  "getitem xs i =
     (if 0 \<le> i \<and> i < int (length xs) then Inr (xs ! nat i)
      else if i < 0 \<and> - int (length xs) \<le> i then Inr (xs ! nat (int (length xs) + i))
      else Inl IndexError)"

text \<open>\<^verbatim>\<open>xs[i:j]\<close> for constant \<open>0 \<le> i \<le> j\<close>; a slice never raises.\<close>

definition slice :: "nat \<Rightarrow> nat \<Rightarrow> 'a list \<Rightarrow> 'a list" where
  "slice i j xs = take (j - i) (drop i xs)"

section \<open>The record and its constructor\<close>

record IMB =
  barcode_id :: string
  service_type_id :: string
  mailer_id :: string
  serial_num :: string
  deliv_zip :: string

text \<open>
  \<^verbatim>\<open>IntelligentMailBarcode.__init__\<close>: the assertions in source order. Every failure is
  an \<^verbatim>\<open>AssertionError\<close>; the object exists only when all of them pass.
\<close>

definition IntelligentMailBarcode ::
  "string \<Rightarrow> string \<Rightarrow> string \<Rightarrow> string \<Rightarrow> string \<Rightarrow> error + IMB" where
  "IntelligentMailBarcode bid st_id mid snum dzip =
     (if \<not> isdigit bid then Inl AssertionError
      else if \<not> isdigit st_id then Inl AssertionError
      else if \<not> isdigit mid then Inl AssertionError
      else if \<not> isdigit snum then Inl AssertionError
      else if \<not> (isdigit dzip \<or> length dzip = 0) then Inl AssertionError
      else if \<not> (0 \<le> int_str bid mod 10 \<and> int_str bid mod 10 \<le> 4) then Inl AssertionError
      else if \<not> (0 \<le> int_str bid \<and> int_str bid \<le> 99) then Inl AssertionError
      else if \<not> (0 \<le> int_str st_id \<and> int_str st_id \<le> 999) then Inl AssertionError
      else if \<not> (length mid = 6 \<or> length mid = 9) then Inl AssertionError
      else if length mid = 9 \<and> \<not> (900000000 \<le> int_str mid \<and> int_str mid \<le> 999999999)
        then Inl AssertionError
      else if length mid \<noteq> 9 \<and> \<not> (0 \<le> int_str mid \<and> int_str mid \<le> 899999)
        then Inl AssertionError
      else if \<not> (length snum = 6 \<or> length snum = 9) then Inl AssertionError
      else if length snum = 9 \<and> length mid \<noteq> 6 then Inl AssertionError
      else if length snum \<noteq> 9 \<and> length mid \<noteq> 9 then Inl AssertionError
      else if \<not> (length dzip = 0 \<or> length dzip = 5 \<or> length dzip = 9 \<or> length dzip = 11)
        then Inl AssertionError
      else Inr \<lparr>barcode_id = bid, service_type_id = st_id, mailer_id = mid,
                serial_num = snum, deliv_zip = dzip\<rparr>)"

definition tracking :: "IMB \<Rightarrow> string" where
  "tracking r = barcode_id r @ service_type_id r @ mailer_id r @ serial_num r"

definition routing :: "IMB \<Rightarrow> string" where
  "routing r = deliv_zip r"

text \<open>\<^verbatim>\<open>__str__\<close>: tracking followed by routing.\<close>

definition str_imb :: "IMB \<Rightarrow> string" where
  "str_imb r = tracking r @ routing r"

section \<open>Splitting a tracking+routing string\<close>

text \<open>
  \<^verbatim>\<open>from_t_and_r\<close>: the slices cannot raise, the read of \<^verbatim>\<open>tracking[5]\<close> can, and
  the constructor is called last.
\<close>

definition from_t_and_r :: "string \<Rightarrow> error + IMB" where
  "from_t_and_r tracking_routing =
     (let trk = take 20 tracking_routing;
          rtg = drop 20 tracking_routing;
          bar_id = slice 0 2 trk;
          st_id = slice 2 5 trk
      in bind_err (getitem trk 5) (\<lambda>c.
           if c = CHR ''9''
           then IntelligentMailBarcode bar_id st_id (slice 5 14 trk) (slice 14 20 trk) rtg
           else IntelligentMailBarcode bar_id st_id (slice 5 11 trk) (slice 11 20 trk) rtg))"

section \<open>The lookup tables\<close>

text \<open>
  \<^verbatim>\<open>_reverse_unsigned_short\<close>: sixteen rounds of shifting the lowest bit of
  \<open>ushort\<close> into \<open>rev_val\<close> (the source's \<^verbatim>\<open>rev\<close>).
\<close>

fun reverse_loop :: "nat \<Rightarrow> int \<Rightarrow> int \<Rightarrow> int" where
  "reverse_loop 0 rev_val ushort = rev_val"
| "reverse_loop (Suc n) rev_val ushort =
     reverse_loop n (push_bit 1 rev_val OR (ushort AND 1)) (drop_bit 1 ushort)"

definition reverse_unsigned_short :: "int \<Rightarrow> int" where
  "reverse_unsigned_short ushort = reverse_loop 16 0 ushort"

text \<open>
  \<^verbatim>\<open>bin(n)\<close>: an optional sign, the prefix \<^verbatim>\<open>0b\<close> and the binary digits of
  \<open>\<bar>n\<bar>\<close> without leading zeros (a single \<^verbatim>\<open>0\<close> for zero).
\<close>

function bin_digits :: "nat \<Rightarrow> string" where
  "bin_digits n =
     (if n = 0 then [] else bin_digits (n div 2) @ [if odd n then CHR ''1'' else CHR ''0''])"
  by pat_completeness auto
termination
  by (relation "measure id") auto

declare bin_digits.simps [simp del]

definition bin :: "int \<Rightarrow> string" where
  "bin n = (if n < 0 then ''-'' else []) @ ''0b''
             @ (if n = 0 then ''0'' else bin_digits (nat \<bar>n\<bar>))"

text \<open>\<^verbatim>\<open>s.count(c)\<close> for a one-character \<open>c\<close>.\<close>

definition str_count :: "string \<Rightarrow> char \<Rightarrow> nat" where
  "str_count s c = length (filter (\<lambda>d. d = c) s)"

text \<open>
  An \<^verbatim>\<open>array.array('H')\<close> is a list of integers in \<open>0 .. 65535\<close>. An item assignment
  checks the index first (negative indices count from the end), then the value.
\<close>

definition array_set :: "int list \<Rightarrow> int \<Rightarrow> int \<Rightarrow> error + int list" where
  "array_set xs i v =
     (if \<not> (- int (length xs) \<le> i \<and> i < int (length xs)) then Inl IndexError
      else if \<not> (0 \<le> v \<and> v \<le> 65535) then Inl OverflowError
      else if 0 \<le> i then Inr (xs[nat i := v])
      else Inr (xs[nat (int (length xs) + i) := v]))"

text \<open>
  The state of the loop of \<^verbatim>\<open>_lookup_table\<close> is \<open>(lut, lut_lower, lut_upper)\<close>;
  \<open>lut_step\<close> is its body for one value of \<open>count\<close>.
\<close>

type_synonym lut_state = "int list \<times> int \<times> int"

definition lut_step :: "nat \<Rightarrow> int \<Rightarrow> lut_state \<Rightarrow> error + lut_state" where
  "lut_step table_type count st =
     (case st of (lut, lut_lower, lut_upper) \<Rightarrow>
        if str_count (bin count) CHR ''1'' \<noteq> table_type then Inr st
        else let rev_val = drop_bit 3 (reverse_unsigned_short count) in
          if rev_val < count then Inr st
          else if count = rev_val then
            bind_err (array_set lut lut_upper count) (\<lambda>lut1.
              Inr (lut1, lut_lower, lut_upper - 1))
          else
            bind_err (array_set lut lut_lower count) (\<lambda>lut1.
            bind_err (array_set lut1 (lut_lower + 1) rev_val) (\<lambda>lut2.
              Inr (lut2, lut_lower + 2, lut_upper))))"

fun lut_loop :: "nat \<Rightarrow> int list \<Rightarrow> lut_state \<Rightarrow> error + lut_state" where
  "lut_loop table_type [] st = Inr st"
| "lut_loop table_type (count # counts) st =
     bind_err (lut_step table_type count st) (lut_loop table_type counts)"

text \<open>
  \<^verbatim>\<open>_lookup_table\<close> up to its \<^verbatim>\<open>return\<close>, with the two index variables still in
  view, and the function itself, which returns the array only.
\<close>

definition lookup_table_state :: "nat \<Rightarrow> nat \<Rightarrow> error + lut_state" where
  "lookup_table_state table_type len =
     (if \<not> (table_type = 2 \<or> table_type = 5) then Inl AssertionError
      else if \<not> (len = 78 \<or> len = 1287) then Inl AssertionError
      else lut_loop table_type (map int [0..<8192]) (replicate len 0, 0, int len - 1))"

definition lookup_table :: "nat \<Rightarrow> nat \<Rightarrow> error + int list" where
  "lookup_table table_type len =
     bind_err (lookup_table_state table_type len) (\<lambda>st. Inr (fst st))"

section \<open>The bar construction table\<close>

definition BAR_CONSTRUCTION_TABLE :: "string list" where
  "BAR_CONSTRUCTION_TABLE = [
    ''1 H 2 E 3'', ''2 B 10 A 0'', ''3 J 12 C 8'', ''4 F 5 G 11'', ''5 I 9 D 1'',
    ''6 A 1 F 12'', ''7 C 5 B 8'', ''8 E 4 J 11'', ''9 G 3 I 10'', ''10 D 9 H 6'',
    ''11 F 11 B 4'', ''12 I 5 C 12'', ''13 J 10 A 2'', ''14 H 1 G 7'', ''15 D 6 E 9'',
    ''16 A 3 I 6'', ''17 G 4 C 7'', ''18 B 1 J 9'', ''19 H 10 F 2'', ''20 E 0 D 8'',
    ''21 G 2 A 4'', ''22 I 11 B 0'', ''23 J 8 D 12'', ''24 C 6 H 7'', ''25 F 1 E 10'',
    ''26 B 12 G 9'', ''27 H 3 I 0'', ''28 F 8 J 7'', ''29 E 6 C 10'', ''30 D 4 A 5'',
    ''31 I 4 F 7'', ''32 H 11 B 9'', ''33 G 0 J 6'', ''34 A 6 E 8'', ''35 C 1 D 2'',
    ''36 F 9 I 12'', ''37 E 11 G 1'', ''38 J 5 H 4'', ''39 D 3 B 2'', ''40 A 7 C 0'',
    ''41 B 3 E 1'', ''42 G 10 D 5'', ''43 I 7 J 4'', ''44 C 11 F 6'', ''45 A 8 H 12'',
    ''46 E 2 I 1'', ''47 F 10 D 0'', ''48 J 3 A 9'', ''49 G 5 C 4'', ''50 H 8 B 7'',
    ''51 F 0 E 5'', ''52 C 3 A 10'', ''53 G 12 J 2'', ''54 D 11 B 6'', ''55 I 8 H 9'',
    ''56 F 4 A 11'', ''57 B 5 C 2'', ''58 J 1 E 12'', ''59 I 3 G 6'', ''60 H 0 D 7'',
    ''61 E 7 H 5'', ''62 A 12 B 11'', ''63 C 9 J 0'', ''64 G 8 F 3'', ''65 D 10 I 2'']"

text \<open>\<^verbatim>\<open>s.split(sep)\<close> for a one-character separator: every separator starts a new part.\<close>

fun split_on :: "char \<Rightarrow> string \<Rightarrow> string list" where
  "split_on sep [] = [[]]"
| "split_on sep (c # cs) =
     (if c = sep then [] # split_on sep cs
      else (case split_on sep cs of [] \<Rightarrow> [[c]] | w # ws \<Rightarrow> (c # w) # ws))"

record BarMap =
  desc_char :: string
  desc_bit :: string
  asc_char :: string
  asc_bit :: string

text \<open>The unpacking of the five parts of one element; any other number of parts raises.\<close>

definition bar_map_of :: "string \<Rightarrow> error + BarMap" where
  "bar_map_of element =
     (case split_on CHR '' '' element of
        [_, dc, db, ac, ab] \<Rightarrow>
          Inr \<lparr>desc_char = dc, desc_bit = db, asc_char = ac, asc_bit = ab\<rparr>
      | _ \<Rightarrow> Inl ValueError)"

fun bar_table_loop :: "string list \<Rightarrow> error + BarMap list" where
  "bar_table_loop [] = Inr []"
| "bar_table_loop (element # elements) =
     bind_err (bar_map_of element) (\<lambda>b.
     bind_err (bar_table_loop elements) (\<lambda>bs. Inr (b # bs)))"

definition bar_construction_table :: "error + BarMap list" where
  "bar_construction_table = bar_table_loop BAR_CONSTRUCTION_TABLE"

section \<open>The encoder\<close>

subsection \<open>Step 1: the data fields as one integer\<close>

definition routing_code :: "IMB \<Rightarrow> error + int" where
  "routing_code imb =
     (let routing_len = length (routing imb) in
      if routing_len = 0 then Inr 0
      else if routing_len = 5 then bind_err (py_int (routing imb)) (\<lambda>v. Inr (v + 1))
      else if routing_len = 9 then bind_err (py_int (routing imb)) (\<lambda>v. Inr (v + 100001))
      else if routing_len = 11 then bind_err (py_int (routing imb)) (\<lambda>v. Inr (v + 1000100001))
      else Inl UnboundLocalError)"

fun tracking_loop :: "string \<Rightarrow> int \<Rightarrow> error + int" where
  "tracking_loop [] rc_val = Inr rc_val"
| "tracking_loop (c # cs) rc_val =
     bind_err (py_int [c]) (\<lambda>d. tracking_loop cs (rc_val * 10 + d))"

definition binary_value :: "IMB \<Rightarrow> error + int" where
  "binary_value imb =
     bind_err (routing_code imb) (\<lambda>rc.
     bind_err (getitem (tracking imb) 0) (\<lambda>c0.
     bind_err (py_int [c0]) (\<lambda>d0.
     bind_err (getitem (tracking imb) 1) (\<lambda>c1.
     bind_err (py_int [c1]) (\<lambda>d1.
       tracking_loop (drop 2 (tracking imb)) ((rc * 10 + d0) * 5 + d1))))))"

subsection \<open>Step 2: the 11-bit frame check sequence\<close>

text \<open>One round of the inner loops, on the pair \<open>(fcs, data)\<close>.\<close>

definition fcs_step :: "int \<times> int \<Rightarrow> int \<times> int" where
  "fcs_step s =
     (case s of (fcs, data) \<Rightarrow>
        ((if (fcs XOR data) AND 0x400 \<noteq> 0 then push_bit 1 fcs XOR 0x0f35 else push_bit 1 fcs)
           AND 0x7ff,
         push_bit 1 data))"

fun fcs_bits :: "nat \<Rightarrow> int \<times> int \<Rightarrow> int \<times> int" where
  "fcs_bits 0 s = s"
| "fcs_bits (Suc n) s = fcs_bits n (fcs_step s)"

fun fcs_bytes :: "nat list \<Rightarrow> int \<Rightarrow> int \<Rightarrow> int" where
  "fcs_bytes [] rc_val fcs = fcs"
| "fcs_bytes (k # ks) rc_val fcs =
     fcs_bytes ks rc_val
       (fst (fcs_bits 8 (fcs, push_bit 3 (drop_bit ((12 - k) * 8) rc_val AND 0xff))))"

definition crc11 :: "int \<Rightarrow> int" where
  "crc11 rc_val =
     fcs_bytes [1..<13] rc_val
       (fst (fcs_bits 6 (0x07ff, push_bit 5 (drop_bit (12 * 8) rc_val))))"

subsection \<open>Steps 3 and 4: codewords\<close>

text \<open>
  The nine \<^verbatim>\<open>divmod\<close>s and the assertion on the last quotient; the result is the
  quotient (codeword A before modification) and the remainders B .. J in this order.
\<close>

definition codeword_generation :: "int \<Rightarrow> error + int list" where
  "codeword_generation rc_val =
     (let cw_j = rc_val mod 636; r1 = rc_val div 636;
          cw_i = r1 mod 1365; r2 = r1 div 1365;
          cw_h = r2 mod 1365; r3 = r2 div 1365;
          cw_g = r3 mod 1365; r4 = r3 div 1365;
          cw_f = r4 mod 1365; r5 = r4 div 1365;
          cw_e = r5 mod 1365; r6 = r5 div 1365;
          cw_d = r6 mod 1365; r7 = r6 div 1365;
          cw_c = r7 mod 1365; r8 = r7 div 1365;
          cw_b = r8 mod 1365; r9 = r8 div 1365
      in if \<not> (0 \<le> r9 \<and> r9 \<le> 658) then Inl AssertionError
         else Inr [r9, cw_b, cw_c, cw_d, cw_e, cw_f, cw_g, cw_h, cw_i, cw_j])"

definition codeword_modification :: "int \<Rightarrow> int list \<Rightarrow> int list" where
  "codeword_modification fcs cws =
     (case cws of
        [cw_a, cw_b, cw_c, cw_d, cw_e, cw_f, cw_g, cw_h, cw_i, cw_j] \<Rightarrow>
          [if drop_bit 10 fcs AND 1 \<noteq> 0 then cw_a + 659 else cw_a,
           cw_b, cw_c, cw_d, cw_e, cw_f, cw_g, cw_h, cw_i, cw_j * 2]
      | _ \<Rightarrow> cws)"

subsection \<open>Step 5: characters\<close>

text \<open>
  The loop over the ten codewords. In the last branch the source prints a message and
  then appends \<^verbatim>\<open>cw_char\<close> as the previous round left it (unbound in the first round);
  \<open>prev\<close> is that variable, and the printed lines are returned with the characters.
\<close>

fun char_loop ::
  "int list \<Rightarrow> int list \<Rightarrow> int list \<Rightarrow> int option \<Rightarrow> error + (int list \<times> string list)" where
  "char_loop lut5 lut2 [] prev = Inr ([], [])"
| "char_loop lut5 lut2 (cw # cws) prev =
     bind_err
       (if cw \<le> 1286 then bind_err (getitem lut5 cw) (\<lambda>c. Inr (c, []))
        else if 1287 \<le> cw \<and> cw \<le> 1364 then
          bind_err (getitem lut2 (cw - 1287)) (\<lambda>c. Inr (c, []))
        else (case prev of
                None \<Rightarrow> Inl UnboundLocalError
              | Some c \<Rightarrow> Inr (c, [''codeword > 1364, should not happen''])))
       (\<lambda>(cw_char, out).
          bind_err (char_loop lut5 lut2 cws (Some cw_char)) (\<lambda>(char_list, outs).
            Inr (cw_char # char_list, out @ outs)))"

fun invert_loop :: "nat list \<Rightarrow> int \<Rightarrow> int list \<Rightarrow> error + int list" where
  "invert_loop [] fcs char_list = Inr char_list"
| "invert_loop (i # is) fcs char_list =
     (if fcs AND push_bit i 1 \<noteq> 0 then
        bind_err (getitem char_list (int i)) (\<lambda>c.
          invert_loop is fcs (char_list[i := c XOR 0x1fff]))
      else invert_loop is fcs char_list)"

subsection \<open>Step 6: bars\<close>

text \<open>\<^verbatim>\<open>ord(s)\<close> wants a string of length one.\<close>

definition ord :: "string \<Rightarrow> error + int" where
  "ord s = (case s of [c] \<Rightarrow> Inr (int (of_char c)) | _ \<Rightarrow> Inl TypeError)"

definition bar_symbol :: "int list \<Rightarrow> BarMap \<Rightarrow> error + char" where
  "bar_symbol char_list bar_map =
     bind_err (ord (asc_char bar_map)) (\<lambda>oa.
     bind_err (ord (desc_char bar_map)) (\<lambda>od.
     bind_err (getitem char_list (oa - 65)) (\<lambda>ca.
     bind_err (py_int (asc_bit bar_map)) (\<lambda>ba.
     bind_err (getitem char_list (od - 65)) (\<lambda>cd.
     bind_err (py_int (desc_bit bar_map)) (\<lambda>bd.
       let asc = ca AND push_bit (nat ba) 1; desc = cd AND push_bit (nat bd) 1 in
       Inr (if asc \<noteq> 0 \<and> desc \<noteq> 0 then CHR ''F''
            else if asc \<noteq> 0 then CHR ''A''
            else if desc \<noteq> 0 then CHR ''D''
            else CHR ''T'')))))))"

fun bar_loop :: "nat list \<Rightarrow> BarMap list \<Rightarrow> int list \<Rightarrow> error + string" where
  "bar_loop [] bar_table char_list = Inr []"
| "bar_loop (i # is) bar_table char_list =
     bind_err (getitem bar_table (int i)) (\<lambda>bar_map.
     bind_err (bar_symbol char_list bar_map) (\<lambda>c.
     bind_err (bar_loop is bar_table char_list) (\<lambda>enc_str. Inr (c # enc_str))))"

subsection \<open>The whole of \<^verbatim>\<open>encode\<close>\<close>

text \<open>
  \<open>encode_io\<close> gives the returned string together with the lines printed on the way;
  \<open>encode\<close> is the returned value.
\<close>

definition encode_io :: "IMB \<Rightarrow> error + (string \<times> string list)" where
  "encode_io imb =
     bind_err (binary_value imb) (\<lambda>rc_val.
     let fcs = crc11 rc_val in
     bind_err (codeword_generation rc_val) (\<lambda>cws.
     bind_err (lookup_table 5 1287) (\<lambda>lut5.
     bind_err (lookup_table 2 78) (\<lambda>lut2.
     bind_err (char_loop lut5 lut2 (codeword_modification fcs cws) None) (\<lambda>(char_list, out).
     bind_err (invert_loop [0..<10] fcs char_list) (\<lambda>char_list'.
     bind_err bar_construction_table (\<lambda>bar_table.
     bind_err (bar_loop [0..<65] bar_table char_list') (\<lambda>enc_str.
       Inr (enc_str, out)))))))))"

definition encode :: "IMB \<Rightarrow> error + string" where
  "encode imb = bind_err (encode_io imb) (\<lambda>r. Inr (fst r))"

section \<open>Notions for the statements about the tables\<close>

text \<open>
  The 13-bit reversal of line 97 of the source,
  \<^verbatim>\<open>_reverse_unsigned_short(count) >> 3\<close>.
\<close>

definition reverse13 :: "int \<Rightarrow> int" where
  "reverse13 v = drop_bit 3 (reverse_unsigned_short v)"

text \<open>The values of \<^verbatim>\<open>count\<close> in \<^verbatim>\<open>range(8192)\<close>, in order.\<close>

definition counts :: "int list" where
  "counts = map int [0..<8192]"

text \<open>
  What the loop of \<^verbatim>\<open>_lookup_table\<close> writes, read off its three branches: the
  candidates below their reversal are written, each followed by its reversal, from the
  first index upwards (\<open>fronts\<close>); the candidates equal to their reversal are written
  from the last index downwards (\<open>backs\<close>, in the order of writing).
\<close>

definition paired :: "nat \<Rightarrow> int list \<Rightarrow> int list" where
  "paired t cs = filter (\<lambda>c. str_count (bin c) CHR ''1'' = t \<and> c < reverse13 c) cs"

definition fronts :: "nat \<Rightarrow> int list \<Rightarrow> int list" where
  "fronts t cs = concat (map (\<lambda>c. [c, reverse13 c]) (paired t cs))"

definition backs :: "nat \<Rightarrow> int list \<Rightarrow> int list" where
  "backs t cs = filter (\<lambda>c. str_count (bin c) CHR ''1'' = t \<and> reverse13 c = c) cs"

text \<open>The integers below \<open>2 ^ k\<close> with exactly \<open>j\<close> bits set.\<close>

definition weight_set :: "nat \<Rightarrow> nat \<Rightarrow> int set" where
  "weight_set k j = {c. 0 \<le> c \<and> c < 2 ^ k \<and> card {i. bit c i} = j}"

text \<open>
  What \<^verbatim>\<open>encode\<close> needs of an element of the bar table: two characters in
  \<^verbatim>\<open>A .. J\<close> and two bit numbers that \<^verbatim>\<open>int\<close> accepts.
\<close>

definition bar_map_ok :: "BarMap \<Rightarrow> bool" where
  "bar_map_ok b =
     (case ord (asc_char b) of Inl e \<Rightarrow> False | Inr oa \<Rightarrow>
      case ord (desc_char b) of Inl e \<Rightarrow> False | Inr od \<Rightarrow>
      case py_int (asc_bit b) of Inl e \<Rightarrow> False | Inr ba \<Rightarrow>
      case py_int (desc_bit b) of Inl e \<Rightarrow> False | Inr bd \<Rightarrow>
        65 \<le> oa \<and> oa \<le> 74 \<and> 65 \<le> od \<and> od \<le> 74 \<and> 0 \<le> ba \<and> 0 \<le> bd)"

section \<open>Evaluation on literals\<close>

lemma is_digit_char_simps [simp]:
  "is_digit_char (Char b0 b1 b2 b3 b4 b5 b6 b7) =
     (48 \<le> (of_char (Char b0 b1 b2 b3 b4 b5 b6 b7) :: nat)
      \<and> (of_char (Char b0 b1 b2 b3 b4 b5 b6 b7) :: nat) \<le> 57)"
  by (simp only: is_digit_char_def)

lemma isdigit_Nil [simp]: "isdigit [] = False"
  by (simp add: isdigit_def)

lemma isdigit_Cons [simp]: "isdigit (c # cs) = (is_digit_char c \<and> list_all is_digit_char cs)"
  by (simp add: isdigit_def)

lemma int_str_Nil [simp]: "int_str [] = 0"
  by (simp add: int_str_def)

lemma int_str_snoc: "int_str (cs @ [c]) = int_str cs * 10 + digit_val c"
  by (simp add: int_str_def)

text \<open>
  Exceptions propagate: the continuation of \<open>bind_err\<close> is looked at only once its first
  argument is a value, which is also the order in which the simplifier evaluates it.
\<close>

lemma bind_err_Inl [simp]: "bind_err (Inl e) f = Inl e"
  by (simp add: bind_err_def)

lemma bind_err_Inr [simp]: "bind_err (Inr x) f = f x"
  by (simp add: bind_err_def)

lemma bind_err_weak_cong [cong]: "m = m' \<Longrightarrow> bind_err m f = bind_err m' f"
  by simp

section \<open>Digit strings\<close>

lemma digit_val_range: "is_digit_char c \<Longrightarrow> 0 \<le> digit_val c \<and> digit_val c \<le> 9"
  by (auto simp: is_digit_char_def digit_val_def)

lemma foldl_digits_nonneg:
  "0 \<le> a \<Longrightarrow> list_all is_digit_char s \<Longrightarrow> 0 \<le> foldl (\<lambda>a c. a * 10 + digit_val c) a s"
proof (induction s arbitrary: a)
  case Nil
  then show ?case by simp
next
  case (Cons c s)
  from Cons.prems have "0 \<le> a * 10 + digit_val c"
    using digit_val_range [of c] by simp
  with Cons show ?case by simp
qed

lemma int_str_nonneg: "list_all is_digit_char s \<Longrightarrow> 0 \<le> int_str s"
  unfolding int_str_def by (rule foldl_digits_nonneg) simp_all

lemma foldl_digits_shift:
  "foldl (\<lambda>a c. a * 10 + digit_val c) a s
     = a * 10 ^ length s + foldl (\<lambda>a c. a * 10 + digit_val c) 0 s"
proof (induction s arbitrary: a)
  case Nil
  then show ?case by simp
next
  case (Cons c s)
  let ?f = "\<lambda>a c. a * 10 + digit_val c"
  have "foldl ?f a (c # s) = foldl ?f (a * 10 + digit_val c) s"
    by simp
  also have "\<dots> = (a * 10 + digit_val c) * 10 ^ length s + foldl ?f 0 s"
    by (rule Cons.IH)
  also have "\<dots> = a * 10 ^ length (c # s) + (digit_val c * 10 ^ length s + foldl ?f 0 s)"
    by (simp add: algebra_simps)
  also have "digit_val c * 10 ^ length s + foldl ?f 0 s = foldl ?f (digit_val c) s"
    by (rule Cons.IH [symmetric])
  also have "foldl ?f (digit_val c) s = foldl ?f 0 (c # s)"
    by simp
  finally show ?case .
qed

lemma int_str_Cons: "int_str (c # s) = digit_val c * 10 ^ length s + int_str s"
  unfolding int_str_def using foldl_digits_shift [of "digit_val c" s] by simp

lemma int_str_append: "int_str (a @ b) = int_str a * 10 ^ length b + int_str b"
  unfolding int_str_def using foldl_digits_shift [of "foldl (\<lambda>a c. a * 10 + digit_val c) 0 a" b]
  by simp

lemma int_str_upper: "list_all is_digit_char s \<Longrightarrow> int_str s < 10 ^ length s"
proof (induction s)
  case Nil
  then show ?case by simp
next
  case (Cons c s)
  then have "digit_val c \<le> 9" "int_str s < 10 ^ length s"
    using digit_val_range [of c] by simp_all
  then have "digit_val c * 10 ^ length s + int_str s < 9 * 10 ^ length s + 10 ^ length s"
    by (intro add_le_less_mono mult_right_mono) simp_all
  then show ?case by (simp add: int_str_Cons)
qed

lemma digit_val_9: "digit_val c = 9 \<longleftrightarrow> c = CHR ''9''"
proof
  assume "digit_val c = 9"
  then have "of_char c = (57::nat)" by (simp add: digit_val_def)
  moreover have "of_char CHR ''9'' = (57::nat)" by simp
  ultimately have "(of_char c :: nat) = of_char CHR ''9''" by (simp only:)
  then show "c = CHR ''9''" by (simp only: of_char_eq_iff)
next
  assume "c = CHR ''9''"
  then show "digit_val c = 9" by (simp add: digit_val_def)
qed

lemma nine_digit_mailer_starts_with_9:
  assumes "length m = 9" "list_all is_digit_char m" "900000000 \<le> int_str m"
  shows "hd m = CHR ''9''"
proof -
  from assms(1) obtain c s where m: "m = c # s" "length s = 8" by (cases m) simp_all
  with assms have "int_str s < 10 ^ 8" "digit_val c \<le> 9" "900000000 \<le> digit_val c * 10 ^ 8 + int_str s"
    using int_str_upper [of s] digit_val_range [of c] by (simp_all add: int_str_Cons)
  then have "digit_val c = 9" by simp
  with m show ?thesis by (simp add: digit_val_9)
qed

lemma six_digit_mailer_not_9:
  assumes "length m = 6" "list_all is_digit_char m" "int_str m \<le> 899999"
  shows "hd m \<noteq> CHR ''9''"
proof
  assume h: "hd m = CHR ''9''"
  from assms(1) obtain c s where m: "m = c # s" "length s = 5" by (cases m) simp_all
  with assms have "0 \<le> int_str s" "digit_val c * 10 ^ 5 + int_str s \<le> 899999"
    using int_str_nonneg [of s] by (simp_all add: int_str_Cons)
  moreover from h m have "digit_val c = 9" by (simp add: digit_val_9)
  ultimately show False by simp
qed

section \<open>Bit reversal\<close>

lemma bit_shift_in:
  "bit (push_bit 1 r OR (u AND 1)) k = (if k = 0 then bit u 0 else bit r (k - 1))"
  for r u :: int
proof -
  have "bit (push_bit 1 r OR (u AND 1)) k = (1 \<le> k \<and> bit r (k - 1) \<or> bit u k \<and> k = 0)"
    by (simp only: bit_or_iff bit_and_iff bit_push_bit_iff bit_1_iff possible_bit_int simp_thms)
  then show ?thesis by auto
qed

lemma bit_reverse_loop:
  "bit (reverse_loop n r u) i = (if i < n then bit u (n - 1 - i) else bit r (i - n))"
proof (induction n arbitrary: r u i)
  case 0
  then show ?case by simp
next
  case (Suc n)
  have "bit (reverse_loop (Suc n) r u) i =
          (if i < n then bit (drop_bit 1 u) (n - 1 - i)
           else bit (push_bit 1 r OR (u AND 1)) (i - n))"
    by (simp only: reverse_loop.simps Suc.IH)
  also have "\<dots> = (if i < n then bit u (1 + (n - 1 - i))
                     else if i - n = 0 then bit u 0 else bit r (i - n - 1))"
    by (simp only: bit_shift_in bit_drop_bit_eq o_apply)
  also have "\<dots> = (if i < Suc n then bit u (Suc n - 1 - i) else bit r (i - Suc n))"
  proof -
    have "i < n \<Longrightarrow> 1 + (n - 1 - i) = Suc n - 1 - i" by simp
    moreover have "\<not> i < n \<Longrightarrow> i - n = 0 \<Longrightarrow> i < Suc n \<and> Suc n - 1 - i = 0" by simp
    moreover have "\<not> i < n \<Longrightarrow> i - n \<noteq> 0 \<Longrightarrow> \<not> i < Suc n \<and> i - n - 1 = i - Suc n" by simp
    ultimately show ?thesis by presburger
  qed
  finally show ?case .
qed

lemma bit_reverse_unsigned_short:
  "bit (reverse_unsigned_short u) i = (i < 16 \<and> bit u (15 - i))"
  by (simp add: reverse_unsigned_short_def bit_reverse_loop)

lemma bit_reverse13: "bit (reverse13 v) i = (i < 13 \<and> bit v (12 - i))"
  by (auto simp: reverse13_def bit_drop_bit_eq bit_reverse_unsigned_short)

lemma bit_13: "0 \<le> v \<Longrightarrow> v < 8192 \<Longrightarrow> bit v i \<Longrightarrow> i < 13" for v :: int
proof -
  assume a: "0 \<le> v" "v < 8192" "bit v i"
  then have "take_bit 13 v = v" by (simp add: take_bit_int_eq_self)
  with a(3) have "bit (take_bit 13 v) i" by simp
  then show ?thesis by (simp add: bit_take_bit_iff)
qed

lemma reverse13_range: "0 \<le> reverse13 v \<and> reverse13 v < 8192"
proof -
  have "take_bit 13 (reverse13 v) = reverse13 v"
    by (rule bit_eqI) (auto simp: bit_take_bit_iff bit_reverse13)
  moreover have "0 \<le> take_bit 13 (reverse13 v)"
    by simp
  moreover have "take_bit 13 (reverse13 v) < 2 ^ 13"
    by (rule take_bit_int_less_exp)
  ultimately show ?thesis by simp
qed

lemma reverse13_involution: "0 \<le> v \<Longrightarrow> v < 8192 \<Longrightarrow> reverse13 (reverse13 v) = v"
  by (rule bit_eqI) (auto simp: bit_reverse13 dest: bit_13)

lemma finite_bits_13: "0 \<le> v \<Longrightarrow> v < 8192 \<Longrightarrow> finite {i. bit v i}" for v :: int
  by (rule finite_subset [of _ "{..<13}"]) (auto dest: bit_13)

lemma card_bits_reverse13:
  assumes "0 \<le> v" "v < 8192"
  shows "card {i. bit (reverse13 v) i} = card {i. bit v i}"
proof -
  have "{i. bit (reverse13 v) i} = (\<lambda>i. 12 - i) ` {i. bit v i}"
  proof (rule set_eqI)
    fix i
    show "i \<in> {i. bit (reverse13 v) i} \<longleftrightarrow> i \<in> (\<lambda>i. 12 - i) ` {i. bit v i}"
    proof
      assume "i \<in> {i. bit (reverse13 v) i}"
      then have "i < 13" "bit v (12 - i)" by (simp_all add: bit_reverse13)
      then have "12 - i \<in> {i. bit v i}" "i = 12 - (12 - i)" by simp_all
      then show "i \<in> (\<lambda>i. 12 - i) ` {i. bit v i}" by (rule_tac image_eqI)
    next
      assume "i \<in> (\<lambda>i. 12 - i) ` {i. bit v i}"
      then obtain j where j: "bit v j" "i = 12 - j" by auto
      with assms have "j < 13" by (auto dest: bit_13)
      with j show "i \<in> {i. bit (reverse13 v) i}" by (simp add: bit_reverse13)
    qed
  qed
  moreover have "inj_on (\<lambda>i. 12 - i) {i. bit v i}"
  proof (rule inj_onI)
    fix x y :: nat
    assume "x \<in> {i. bit v i}" and "y \<in> {i. bit v i}" and eq: "12 - x = 12 - y"
    with assms have "x < 13" and "y < 13" by (auto dest: bit_13)
    with eq show "x = y" by arith
  qed
  ultimately show ?thesis by (simp add: card_image)
qed

section \<open>Counting set bits\<close>

lemma bits_rec:
  "{i. bit c i} = (if odd c then {0} else {}) \<union> Suc ` {i. bit (c div 2) i}" for c :: int
proof (rule set_eqI)
  fix i
  show "i \<in> {i. bit c i} \<longleftrightarrow> i \<in> (if odd c then {0} else {}) \<union> Suc ` {i. bit (c div 2) i}"
    by (cases i) (auto simp: bit_0 bit_Suc)
qed

lemma bit_bound: "0 \<le> c \<Longrightarrow> c < 2 ^ k \<Longrightarrow> bit c i \<Longrightarrow> i < k" for c :: int
proof -
  assume a: "0 \<le> c" "c < 2 ^ k" "bit c i"
  then have "take_bit k c = c" by (simp add: take_bit_int_eq_self)
  with a(3) have "bit (take_bit k c) i" by simp
  then show ?thesis by (simp add: bit_take_bit_iff)
qed

lemma finite_bits: "0 \<le> c \<Longrightarrow> finite {i. bit c i}" for c :: int
proof -
  assume a: "0 \<le> c"
  have "nat c < 2 ^ nat c" by (rule less_exp)
  then have "int (nat c) < int (2 ^ nat c)" by (simp only: of_nat_less_iff)
  with a have "c < 2 ^ nat c" by simp
  with a have "{i. bit c i} \<subseteq> {..<nat c}" by (auto dest: bit_bound)
  then show ?thesis by (rule finite_subset) simp
qed

lemma card_bits_rec:
  fixes c :: int
  assumes "0 \<le> c"
  shows "card {i. bit c i} = (if odd c then 1 else 0) + card {i. bit (c div 2) i}"
proof -
  from assms have "0 \<le> c div 2" by simp
  then have fin: "finite {i. bit (c div 2) i}" by (rule finite_bits)
  have "card (Suc ` {i. bit (c div 2) i}) = card {i. bit (c div 2) i}"
    by (simp add: card_image)
  moreover have "0 \<notin> Suc ` {i. bit (c div 2) i}" by auto
  ultimately show ?thesis
    using fin by (subst bits_rec) simp
qed

lemma choose_13_5: "(13::nat) choose 5 = 1287"
  by (simp add: eval_nat_numeral)

lemma choose_13_2: "(13::nat) choose 2 = 78"
  by (simp add: eval_nat_numeral)

lemma str_count_append: "str_count (xs @ ys) c = str_count xs c + str_count ys c"
  by (simp add: str_count_def)

lemma str_count_bin_digits: "str_count (bin_digits n) CHR ''1'' = card {i. bit (int n) i}"
proof (induction n rule: bin_digits.induct)
  case (1 n)
  show ?case
  proof (cases "n = 0")
    case True
    then show ?thesis by (simp add: bin_digits.simps str_count_def)
  next
    case False
    have "str_count (bin_digits n) CHR ''1''
            = str_count (bin_digits (n div 2)) CHR ''1'' + (if odd n then 1 else 0)"
      using False by (subst bin_digits.simps) (simp add: str_count_append, simp add: str_count_def)
    also have "\<dots> = card {i. bit (int (n div 2)) i} + (if odd n then 1 else 0)"
      using False by (simp add: "1.IH")
    also have "\<dots> = card {i. bit (int n) i}"
      using card_bits_rec [of "int n"] by (simp add: zdiv_int)
    finally show ?thesis .
  qed
qed

lemma str_count_bin:
  assumes "0 \<le> c"
  shows "str_count (bin c) CHR ''1'' = card {i. bit c i}"
proof (cases "c = 0")
  case True
  then show ?thesis by (simp add: bin_def str_count_def)
next
  case False
  with assms have "bin c = ''0b'' @ bin_digits (nat c)" by (simp add: bin_def)
  then have "str_count (bin c) CHR ''1'' = str_count (bin_digits (nat c)) CHR ''1''"
    by (simp add: str_count_def)
  with assms show ?thesis by (simp add: str_count_bin_digits)
qed

lemma card_bits_0: "card {i. bit (0::int) i} = 0"
proof -
  have "{i. bit (0::int) i} = {}" by auto
  then show ?thesis by (simp only: card.empty)
qed

lemma weight_set_0: "weight_set 0 j = (if j = 0 then {0} else {})"
proof (rule set_eqI)
  fix c :: int
  show "c \<in> weight_set 0 j \<longleftrightarrow> c \<in> (if j = 0 then {0} else {})"
  proof (cases "c = 0")
    case True
    have "0 \<in> weight_set 0 j \<longleftrightarrow> card {i. bit (0::int) i} = j"
      unfolding weight_set_def by (simp del: bit_0_eq)
    then have "0 \<in> weight_set 0 j \<longleftrightarrow> j = 0"
      by (simp only: card_bits_0) auto
    with True show ?thesis by simp
  next
    case False
    then have "\<not> (0 \<le> c \<and> c < 1)" by arith
    with False show ?thesis by (simp add: weight_set_def)
  qed
qed

lemma weight_set_Suc_0: "weight_set (Suc k) 0 = (\<lambda>c. 2 * c) ` weight_set k 0"
proof (rule set_eqI)
  fix c :: int
  show "c \<in> weight_set (Suc k) 0 \<longleftrightarrow> c \<in> (\<lambda>c. 2 * c) ` weight_set k 0"
  proof
    assume "c \<in> weight_set (Suc k) 0"
    then have c: "0 \<le> c" "c < 2 * 2 ^ k" "card {i. bit c i} = 0" by (simp_all add: weight_set_def)
    from c(1,3) have "(if odd c then 1 else 0) + card {i. bit (c div 2) i} = (0::nat)"
      using card_bits_rec [of c] by simp
    then have "even c" "card {i. bit (c div 2) i} = 0" by (auto split: if_splits)
    moreover from c have "0 \<le> c div 2" "c div 2 < 2 ^ k" by simp_all
    ultimately have "c div 2 \<in> weight_set k 0" "c = 2 * (c div 2)"
      by (simp_all add: weight_set_def)
    then show "c \<in> (\<lambda>c. 2 * c) ` weight_set k 0" by (rule_tac image_eqI)
  next
    assume "c \<in> (\<lambda>c. 2 * c) ` weight_set k 0"
    then obtain d where d: "c = 2 * d" "0 \<le> d" "d < 2 ^ k" "card {i. bit d i} = 0"
      by (auto simp: weight_set_def)
    then have "card {i. bit c i} = 0" using card_bits_rec [of c] by simp
    with d show "c \<in> weight_set (Suc k) 0" by (simp add: weight_set_def)
  qed
qed

lemma weight_set_Suc_Suc:
  "weight_set (Suc k) (Suc j) =
     (\<lambda>c. 2 * c) ` weight_set k (Suc j) \<union> (\<lambda>c. 2 * c + 1) ` weight_set k j"
proof (rule set_eqI)
  fix c :: int
  show "c \<in> weight_set (Suc k) (Suc j) \<longleftrightarrow>
          c \<in> (\<lambda>c. 2 * c) ` weight_set k (Suc j) \<union> (\<lambda>c. 2 * c + 1) ` weight_set k j"
  proof
    assume "c \<in> weight_set (Suc k) (Suc j)"
    then have c: "0 \<le> c" "c < 2 * 2 ^ k" "card {i. bit c i} = Suc j"
      by (simp_all add: weight_set_def)
    from c have d: "0 \<le> c div 2" "c div 2 < 2 ^ k" by simp_all
    from c(1,3) have eq: "(if odd c then 1 else 0) + card {i. bit (c div 2) i} = Suc j"
      using card_bits_rec [of c] by simp
    show "c \<in> (\<lambda>c. 2 * c) ` weight_set k (Suc j) \<union> (\<lambda>c. 2 * c + 1) ` weight_set k j"
    proof (cases "odd c")
      case True
      with eq d have "c div 2 \<in> weight_set k j" by (simp add: weight_set_def)
      moreover from True have "c = 2 * (c div 2) + 1" by simp
      ultimately have "c \<in> (\<lambda>c. 2 * c + 1) ` weight_set k j" by (rule_tac image_eqI)
      then show ?thesis by simp
    next
      case False
      with eq d have "c div 2 \<in> weight_set k (Suc j)" by (simp add: weight_set_def)
      moreover from False have "c = 2 * (c div 2)" by simp
      ultimately have "c \<in> (\<lambda>c. 2 * c) ` weight_set k (Suc j)" by (rule_tac image_eqI)
      then show ?thesis by simp
    qed
  next
    assume "c \<in> (\<lambda>c. 2 * c) ` weight_set k (Suc j) \<union> (\<lambda>c. 2 * c + 1) ` weight_set k j"
    then consider d where "c = 2 * d" "d \<in> weight_set k (Suc j)"
      | d where "c = 2 * d + 1" "d \<in> weight_set k j" by auto
    then show "c \<in> weight_set (Suc k) (Suc j)"
    proof cases
      case 1
      then have d: "0 \<le> d" "d < 2 ^ k" "card {i. bit d i} = Suc j" by (simp_all add: weight_set_def)
      with 1 have "card {i. bit c i} = Suc j" using card_bits_rec [of c] by simp
      with 1 d show ?thesis by (simp add: weight_set_def)
    next
      case 2
      then have d: "0 \<le> d" "d < 2 ^ k" "card {i. bit d i} = j" by (simp_all add: weight_set_def)
      with 2 have "card {i. bit c i} = Suc j" using card_bits_rec [of c] by simp
      with 2 d show ?thesis by (simp add: weight_set_def)
    qed
  qed
qed

lemma card_weight_set: "finite (weight_set k j) \<and> card (weight_set k j) = k choose j"
proof (induction k arbitrary: j)
  case 0
  then show ?case by (simp add: weight_set_0)
next
  case (Suc k)
  have inj2: "inj_on (\<lambda>c::int. 2 * c) A" for A by (simp add: inj_on_def)
  have inj21: "inj_on (\<lambda>c::int. 2 * c + 1) A" for A by (simp add: inj_on_def)
  show ?case
  proof (cases j)
    case 0
    then show ?thesis
      using Suc.IH [of 0] by (simp add: weight_set_Suc_0 card_image inj2)
  next
    case (Suc j')
    have disj: "(\<lambda>c. 2 * c) ` weight_set k (Suc j') \<inter> (\<lambda>c. 2 * c + 1) ` weight_set k j' = {}"
    proof -
      have "2 * a \<noteq> 2 * b + 1" for a b :: int by presburger
      then show ?thesis by auto
    qed
    from Suc.IH [of "Suc j'"] Suc.IH [of j'] disj show ?thesis
      unfolding Suc weight_set_Suc_Suc
      by (simp add: card_Un_disjoint card_image inj2 inj21)
  qed
qed

section \<open>The loop of the table builder\<close>

lemma lut_step_skip:
  "str_count (bin c) CHR ''1'' \<noteq> t \<or> reverse13 c < c \<Longrightarrow> lut_step t c st = Inr st"
  by (cases st) (auto simp: lut_step_def reverse13_def Let_def)

lemma lut_step_back:
  "str_count (bin c) CHR ''1'' = t \<Longrightarrow> reverse13 c = c \<Longrightarrow>
   lut_step t c (lut, lo, up) = bind_err (array_set lut up c) (\<lambda>lut1. Inr (lut1, lo, up - 1))"
  by (simp add: lut_step_def reverse13_def Let_def)

lemma lut_step_front:
  "str_count (bin c) CHR ''1'' = t \<Longrightarrow> c < reverse13 c \<Longrightarrow>
   lut_step t c (lut, lo, up) =
     bind_err (array_set lut lo c) (\<lambda>lut1.
     bind_err (array_set lut1 (lo + 1) (reverse13 c)) (\<lambda>lut2. Inr (lut2, lo + 2, up)))"
  unfolding reverse13_def by (simp add: lut_step_def Let_def)

lemma array_set_front:
  assumes "0 \<le> v" "v \<le> 65535"
  shows "array_set (F @ replicate (Suc n) 0 @ B) (int (length F)) v
           = Inr (F @ [v] @ replicate n 0 @ B)"
  using assms by (simp add: array_set_def list_update_append)

lemma array_set_back:
  assumes "0 \<le> v" "v \<le> 65535"
  shows "array_set (F @ replicate (Suc n) 0 @ B) (int (length F + Suc n) - 1) v
           = Inr (F @ replicate n 0 @ v # B)"
proof -
  have "F @ replicate (Suc n) 0 @ B = (F @ replicate n 0) @ 0 # B"
    by (simp add: replicate_append_same)
  moreover have "nat (int (length F + Suc n) - 1) = length (F @ replicate n 0)"
    by simp
  moreover have "((F @ replicate n 0) @ 0 # B)[length (F @ replicate n 0) := v]
                   = (F @ replicate n 0) @ v # B"
    by (rule list_update_length)
  ultimately show ?thesis
    using assms by (simp add: array_set_def)
qed

lemma fronts_Cons:
  "fronts t (c # cs) =
     (if str_count (bin c) CHR ''1'' = t \<and> c < reverse13 c then [c, reverse13 c] else [])
       @ fronts t cs"
  by (simp add: fronts_def paired_def)

lemma backs_Cons:
  "backs t (c # cs) =
     (if str_count (bin c) CHR ''1'' = t \<and> reverse13 c = c then [c] else []) @ backs t cs"
  by (simp add: backs_def)

lemma lut_loop_spec:
  assumes "\<forall>c\<in>set cs. 0 \<le> c \<and> c < 8192"
    and "length (fronts t cs) + length (backs t cs) \<le> n"
  shows "lut_loop t cs (F @ replicate n 0 @ B, int (length F), int (length F + n) - 1) =
           Inr (F @ fronts t cs
                  @ replicate (n - (length (fronts t cs) + length (backs t cs))) 0
                  @ rev (backs t cs) @ B,
                int (length F + length (fronts t cs)),
                int (length F + n) - 1 - int (length (backs t cs)))"
  using assms
proof (induction cs arbitrary: F n B)
  case Nil
  then show ?case by (simp add: fronts_def backs_def paired_def)
next
  case (Cons c cs)
  from Cons.prems(1) have c: "0 \<le> c" "c \<le> 65535" and cs: "\<forall>c\<in>set cs. 0 \<le> c \<and> c < 8192"
    by auto
  have r: "0 \<le> reverse13 c" "reverse13 c \<le> 65535"
    using reverse13_range [of c] by auto
  consider (skipped) "str_count (bin c) CHR ''1'' \<noteq> t \<or> reverse13 c < c"
    | (self_rev) "str_count (bin c) CHR ''1'' = t" "reverse13 c = c"
    | (pair) "str_count (bin c) CHR ''1'' = t" "c < reverse13 c"
    by fastforce
  then show ?case
  proof cases
    case skipped
    then have f: "fronts t (c # cs) = fronts t cs" and b: "backs t (c # cs) = backs t cs"
      by (auto simp: fronts_Cons backs_Cons)
    from Cons.prems(2) have le: "length (fronts t cs) + length (backs t cs) \<le> n"
      by (simp add: f b)
    have "lut_loop t (c # cs) (F @ replicate n 0 @ B, int (length F), int (length F + n) - 1)
            = lut_loop t cs (F @ replicate n 0 @ B, int (length F), int (length F + n) - 1)"
      by (simp only: lut_loop.simps lut_step_skip [OF skipped] bind_err_Inr)
    also note Cons.IH [OF cs le, of F B]
    finally show ?thesis by (simp only: f b)
  next
    case self_rev
    then have f: "fronts t (c # cs) = fronts t cs" and b: "backs t (c # cs) = c # backs t cs"
      by (auto simp: fronts_Cons backs_Cons)
    from Cons.prems(2) obtain m where n: "n = Suc m"
      and le: "length (fronts t cs) + length (backs t cs) \<le> m"
      by (cases n) (simp_all add: f b)
    have step: "lut_step t c (F @ replicate n 0 @ B, int (length F), int (length F + n) - 1)
                  = Inr (F @ replicate m 0 @ c # B, int (length F), int (length F + m) - 1)"
      unfolding n lut_step_back [OF self_rev] array_set_back [OF c] by simp
    have "lut_loop t (c # cs) (F @ replicate n 0 @ B, int (length F), int (length F + n) - 1)
            = lut_loop t cs (F @ replicate m 0 @ c # B, int (length F), int (length F + m) - 1)"
      by (simp only: lut_loop.simps step bind_err_Inr)
    also note Cons.IH [OF cs le, of F "c # B"]
    finally show ?thesis by (simp add: f b n)
  next
    case pair
    then have f: "fronts t (c # cs) = c # reverse13 c # fronts t cs"
      and b: "backs t (c # cs) = backs t cs"
      by (auto simp: fronts_Cons backs_Cons)
    from Cons.prems(2) obtain m where n: "n = Suc (Suc m)"
      and le: "length (fronts t cs) + length (backs t cs) \<le> m"
      by (cases n; cases "n - 1") (simp_all add: f b)
    have s1: "array_set (F @ replicate n 0 @ B) (int (length F)) c
                = Inr (F @ [c] @ replicate (Suc m) 0 @ B)"
      unfolding n by (rule array_set_front [OF c])
    have s2: "array_set (F @ [c] @ replicate (Suc m) 0 @ B) (int (length F) + 1) (reverse13 c)
                = Inr (F @ [c, reverse13 c] @ replicate m 0 @ B)"
    proof -
      have "array_set ((F @ [c]) @ replicate (Suc m) 0 @ B) (int (length (F @ [c]))) (reverse13 c)
              = Inr ((F @ [c]) @ [reverse13 c] @ replicate m 0 @ B)"
        by (rule array_set_front [OF r])
      moreover have "int (length (F @ [c])) = int (length F) + 1" by simp
      ultimately show ?thesis by (simp only: append_assoc append_Cons append_Nil)
    qed
    have step: "lut_step t c (F @ replicate n 0 @ B, int (length F), int (length F + n) - 1)
                  = Inr ((F @ [c, reverse13 c]) @ replicate m 0 @ B,
                         int (length (F @ [c, reverse13 c])),
                         int (length (F @ [c, reverse13 c]) + m) - 1)"
      unfolding lut_step_front [OF pair] s1 bind_err_Inr s2 by (simp add: n)
    have "lut_loop t (c # cs) (F @ replicate n 0 @ B, int (length F), int (length F + n) - 1)
            = lut_loop t cs ((F @ [c, reverse13 c]) @ replicate m 0 @ B,
                int (length (F @ [c, reverse13 c])),
                int (length (F @ [c, reverse13 c]) + m) - 1)"
      by (simp only: lut_loop.simps step bind_err_Inr)
    also note Cons.IH [OF cs le, of "F @ [c, reverse13 c]" B]
    finally show ?thesis by (simp add: f b n)
  qed
qed

section \<open>How many candidates there are\<close>

lemma set_counts: "set counts = {c. 0 \<le> c \<and> c < 8192}"
proof (rule set_eqI)
  fix c :: int
  show "c \<in> set counts \<longleftrightarrow> c \<in> {c. 0 \<le> c \<and> c < 8192}"
  proof
    assume "c \<in> set counts"
    then show "c \<in> {c. 0 \<le> c \<and> c < 8192}" by (auto simp: counts_def)
  next
    assume "c \<in> {c. 0 \<le> c \<and> c < 8192}"
    then have "0 \<le> c" "c < 8192" by simp_all
    then have "nat c < 8192" "c = int (nat c)" by arith+
    then have "nat c \<in> set [0..<8192]" "c = int (nat c)" by simp_all
    then show "c \<in> set counts" unfolding counts_def set_map by (rule_tac image_eqI)
  qed
qed

lemma distinct_counts: "distinct counts"
  by (simp add: counts_def distinct_map)

lemma counts_range: "\<forall>c\<in>set counts. 0 \<le> c \<and> c < 8192"
  by (simp add: set_counts)

lemma weight_counts: "c \<in> set counts \<Longrightarrow> str_count (bin c) CHR ''1'' = card {i. bit c i}"
  by (simp add: set_counts str_count_bin)

lemma length_weight_filter:
  "length (filter (\<lambda>c. str_count (bin c) CHR ''1'' = t) counts) = 13 choose t"
proof -
  have "set (filter (\<lambda>c. str_count (bin c) CHR ''1'' = t) counts) = weight_set 13 t"
    by (auto simp: weight_set_def set_counts str_count_bin)
  moreover have "distinct (filter (\<lambda>c. str_count (bin c) CHR ''1'' = t) counts)"
    using distinct_counts by simp
  ultimately show ?thesis
    using card_weight_set [of 13 t] by (metis distinct_card)
qed

lemma length_filter_trichotomy:
  "length (filter W cs) =
     length (filter (\<lambda>c. W c \<and> c < r c) cs) + length (filter (\<lambda>c. W c \<and> r c < c) cs)
       + length (filter (\<lambda>c. W c \<and> r c = c) cs)" for r :: "int \<Rightarrow> int"
  by (induction cs) auto

lemma reversed_partners:
  "length (filter (\<lambda>c. str_count (bin c) CHR ''1'' = t \<and> reverse13 c < c) counts)
     = length (paired t counts)"
proof -
  let ?A = "{c \<in> set counts. str_count (bin c) CHR ''1'' = t \<and> c < reverse13 c}"
  let ?A' = "{c \<in> set counts. str_count (bin c) CHR ''1'' = t \<and> reverse13 c < c}"
  have closed: "reverse13 c \<in> set counts" for c
    using reverse13_range [of c] by (simp add: set_counts)
  have inv: "reverse13 (reverse13 c) = c" if "c \<in> set counts" for c
    using that by (simp add: set_counts reverse13_involution)
  have wt: "str_count (bin (reverse13 c)) CHR ''1'' = str_count (bin c) CHR ''1''"
    if "c \<in> set counts" for c
    using that closed [of c] by (simp add: weight_counts) (simp add: set_counts card_bits_reverse13)
  have "?A' = reverse13 ` ?A"
  proof (rule set_eqI)
    fix c
    show "c \<in> ?A' \<longleftrightarrow> c \<in> reverse13 ` ?A"
    proof
      assume c: "c \<in> ?A'"
      then have "reverse13 c \<in> ?A" by (simp add: closed wt inv)
      moreover from c have "c = reverse13 (reverse13 c)" by (simp add: inv)
      ultimately show "c \<in> reverse13 ` ?A" by (rule_tac image_eqI)
    next
      assume "c \<in> reverse13 ` ?A"
      then obtain d where "d \<in> ?A" "c = reverse13 d" by auto
      then show "c \<in> ?A'" by (simp add: closed wt inv)
    qed
  qed
  moreover have "inj_on reverse13 ?A"
    by (rule inj_on_inverseI [of _ reverse13]) (simp add: inv)
  ultimately have "card ?A' = card ?A" by (simp add: card_image)
  moreover have "card ?A' = length (filter (\<lambda>c. str_count (bin c) CHR ''1'' = t \<and> reverse13 c < c) counts)"
    using distinct_counts by (simp add: distinct_card [symmetric])
  moreover have "card ?A = length (paired t counts)"
    unfolding paired_def using distinct_counts by (simp add: distinct_card [symmetric])
  ultimately show ?thesis by simp
qed

lemma length_concat_pairs: "length (concat (map (\<lambda>c. [c, f c]) xs)) = 2 * length xs"
  by (induction xs) simp_all

lemma length_fronts: "length (fronts t cs) = 2 * length (paired t cs)"
  unfolding fronts_def by (rule length_concat_pairs)

lemma table_fits: "length (fronts t counts) + length (backs t counts) = 13 choose t"
proof -
  have "13 choose t = length (filter (\<lambda>c. str_count (bin c) CHR ''1'' = t) counts)"
    by (simp only: length_weight_filter)
  also have "\<dots> = length (paired t counts)
      + length (filter (\<lambda>c. str_count (bin c) CHR ''1'' = t \<and> reverse13 c < c) counts)
      + length (backs t counts)"
    unfolding paired_def backs_def by (rule length_filter_trichotomy)
  also have "\<dots> = length (fronts t counts) + length (backs t counts)"
    by (simp only: reversed_partners length_fronts)
  finally show ?thesis by simp
qed

lemma lookup_table_state_eq:
  assumes "t = 2 \<and> n = 78 \<or> t = 5 \<and> n = 1287"
  shows "lookup_table_state t n =
           Inr (fronts t counts @ rev (backs t counts),
                int (length (fronts t counts)),
                int (length (fronts t counts)) - 1)"
proof -
  from assms have n: "n = 13 choose t"
    using choose_13_2 choose_13_5 by auto
  then have fit: "length (fronts t counts) + length (backs t counts) \<le> n"
    by (simp only: table_fits)
  from assms have "lookup_table_state t n =
      lut_loop t counts ([] @ replicate n 0 @ [], int (length ([]::int list)),
        int (length ([]::int list) + n) - 1)"
    by (auto simp: lookup_table_state_def counts_def)
  also note lut_loop_spec [OF counts_range fit, of "[]" "[]"]
  finally show ?thesis
    using table_fits [of t] by (simp add: n)
qed

section \<open>The contents of the tables\<close>

lemma set_concat_pairs: "set (concat (map (\<lambda>c. [c, f c]) xs)) = set xs \<union> f ` set xs"
  by (induction xs) auto

lemma distinct_concat_pairs:
  "distinct xs \<Longrightarrow> \<forall>x\<in>set xs. f x \<notin> set xs \<Longrightarrow> inj_on f (set xs) \<Longrightarrow>
   distinct (concat (map (\<lambda>c. [c, f c]) xs))"
proof (induction xs)
  case Nil
  then show ?case by simp
next
  case (Cons x xs)
  from Cons.prems have IH: "distinct (concat (map (\<lambda>c. [c, f c]) xs))"
    by (intro Cons.IH) (auto simp: inj_on_def)
  from Cons.prems have "x \<noteq> f x" "x \<notin> set xs" "f x \<notin> set xs" "x \<notin> f ` set xs"
    by auto
  moreover from Cons.prems have "f x \<notin> f ` set xs"
    by (auto simp: inj_on_def)
  ultimately show ?case
    using IH by (auto simp: set_concat_pairs)
qed

lemma set_fronts: "set (fronts t cs) = set (paired t cs) \<union> reverse13 ` set (paired t cs)"
  unfolding fronts_def by (rule set_concat_pairs)

lemma paired_mem:
  "c \<in> set (paired t counts) \<longleftrightarrow>
     0 \<le> c \<and> c < 8192 \<and> card {i. bit c i} = t \<and> c < reverse13 c"
  by (auto simp: paired_def set_counts str_count_bin)

lemma backs_mem:
  "c \<in> set (backs t counts) \<longleftrightarrow>
     0 \<le> c \<and> c < 8192 \<and> card {i. bit c i} = t \<and> reverse13 c = c"
  by (auto simp: backs_def set_counts str_count_bin)

lemma fronts_mem:
  "v \<in> set (fronts t counts) \<longleftrightarrow>
     0 \<le> v \<and> v < 8192 \<and> card {i. bit v i} = t \<and> reverse13 v \<noteq> v"
proof
  assume "v \<in> set (fronts t counts)"
  then consider "v \<in> set (paired t counts)"
    | c where "c \<in> set (paired t counts)" "v = reverse13 c"
    by (auto simp: set_fronts)
  then show "0 \<le> v \<and> v < 8192 \<and> card {i. bit v i} = t \<and> reverse13 v \<noteq> v"
  proof cases
    case 1
    then show ?thesis by (auto simp: paired_mem)
  next
    case 2
    then have c: "0 \<le> c" "c < 8192" "card {i. bit c i} = t" "c < reverse13 c"
      by (simp_all add: paired_mem)
    then have "reverse13 v = c" by (simp add: 2 reverse13_involution)
    with c 2 reverse13_range [of c] show ?thesis by (simp add: card_bits_reverse13)
  qed
next
  assume v: "0 \<le> v \<and> v < 8192 \<and> card {i. bit v i} = t \<and> reverse13 v \<noteq> v"
  show "v \<in> set (fronts t counts)"
  proof (cases "v < reverse13 v")
    case True
    with v have "v \<in> set (paired t counts)" by (simp add: paired_mem)
    then show ?thesis by (simp add: set_fronts)
  next
    case False
    with v have "reverse13 v < reverse13 (reverse13 v)"
      by (simp add: reverse13_involution)
    with v reverse13_range [of v] have "reverse13 v \<in> set (paired t counts)"
      by (simp add: paired_mem card_bits_reverse13)
    moreover from v have "v = reverse13 (reverse13 v)" by (simp add: reverse13_involution)
    ultimately have "v \<in> reverse13 ` set (paired t counts)" by (rule_tac image_eqI)
    then show ?thesis by (simp add: set_fronts)
  qed
qed

lemma distinct_fronts: "distinct (fronts t counts)"
  unfolding fronts_def
proof (rule distinct_concat_pairs)
  show "distinct (paired t counts)"
    unfolding paired_def using distinct_counts by simp
  show "\<forall>x\<in>set (paired t counts). reverse13 x \<notin> set (paired t counts)"
    by (auto simp: paired_mem reverse13_involution)
  show "inj_on reverse13 (set (paired t counts))"
    by (rule inj_on_inverseI [of _ reverse13]) (simp add: paired_mem reverse13_involution)
qed

lemma distinct_table: "distinct (fronts t counts @ rev (backs t counts))"
proof -
  have "distinct (backs t counts)"
    unfolding backs_def using distinct_counts by simp
  moreover have "set (fronts t counts) \<inter> set (backs t counts) = {}"
    by (auto simp: fronts_mem backs_mem)
  ultimately show ?thesis by (simp add: distinct_fronts)
qed

lemma table_mem:
  "v \<in> set (fronts t counts @ rev (backs t counts)) \<longleftrightarrow>
     0 \<le> v \<and> v < 8192 \<and> card {i. bit v i} = t"
  by (auto simp: fronts_mem backs_mem)

lemma table_partner:
  assumes "v \<in> set (fronts t counts @ rev (backs t counts))"
  shows "reverse13 v \<in> set (fronts t counts @ rev (backs t counts))"
  using assms reverse13_range [of v] unfolding table_mem by (simp add: card_bits_reverse13)

lemma table_self_reverse_tail:
  assumes "i < length (fronts t counts @ rev (backs t counts))"
    and "reverse13 ((fronts t counts @ rev (backs t counts)) ! i)
           = (fronts t counts @ rev (backs t counts)) ! i"
  shows "length (fronts t counts) \<le> i"
proof (rule ccontr)
  assume "\<not> length (fronts t counts) \<le> i"
  then have i: "i < length (fronts t counts)" by simp
  then have "(fronts t counts @ rev (backs t counts)) ! i = fronts t counts ! i"
    by (simp add: nth_append)
  moreover from i have "fronts t counts ! i \<in> set (fronts t counts)" by simp
  ultimately show False using assms(2) by (simp add: fronts_mem)
qed

lemma table_pair_front:
  assumes "i < length (fronts t counts @ rev (backs t counts))"
    and "reverse13 ((fronts t counts @ rev (backs t counts)) ! i)
           \<noteq> (fronts t counts @ rev (backs t counts)) ! i"
  shows "i < length (fronts t counts)"
proof (rule ccontr)
  assume n: "\<not> i < length (fronts t counts)"
  with assms(1) have "i - length (fronts t counts) < length (rev (backs t counts))"
    by simp
  then have "rev (backs t counts) ! (i - length (fronts t counts)) \<in> set (rev (backs t counts))"
    by (rule nth_mem)
  with n have "(fronts t counts @ rev (backs t counts)) ! i \<in> set (rev (backs t counts))"
    by (simp add: nth_append)
  with assms(2) show False by (simp add: backs_mem)
qed

lemma reverse_loop_numeral:
  "reverse_loop (numeral k) r u =
     reverse_loop (pred_numeral k) (push_bit 1 r OR (u AND 1)) (drop_bit 1 u)"
  by (simp add: numeral_eq_Suc)

lemma reverse13_31: "reverse13 31 = 7936"
  by (simp add: reverse13_def reverse_unsigned_short_def reverse_loop_numeral)

lemma reverse13_496: "reverse13 496 = 496"
  by (simp add: reverse13_def reverse_unsigned_short_def reverse_loop_numeral)

lemma reverse13_3: "reverse13 3 = 6144"
  by (simp add: reverse13_def reverse_unsigned_short_def reverse_loop_numeral)

lemma reverse13_4097: "reverse13 4097 = 4097"
  by (simp add: reverse13_def reverse_unsigned_short_def reverse_loop_numeral)

lemma bits_31: "card {i. bit (31::int) i} = 5"
proof -
  have "str_count (bin 31) CHR ''1'' = 5"
    by (simp add: bin_def str_count_def bin_digits.simps)
  then show ?thesis by (simp add: str_count_bin)
qed

lemma bits_496: "card {i. bit (496::int) i} = 5"
proof -
  have "str_count (bin 496) CHR ''1'' = 5"
    by (simp add: bin_def str_count_def bin_digits.simps)
  then show ?thesis by (simp add: str_count_bin)
qed

lemma bits_3: "card {i. bit (3::int) i} = 2"
proof -
  have "str_count (bin 3) CHR ''1'' = 2"
    by (simp add: bin_def str_count_def bin_digits.simps)
  then show ?thesis by (simp add: str_count_bin)
qed

lemma bits_4097: "card {i. bit (4097::int) i} = 2"
proof -
  have "str_count (bin 4097) CHR ''1'' = 2"
    by (simp add: bin_def str_count_def bin_digits.simps)
  then show ?thesis by (simp add: str_count_bin)
qed

lemma lookup_table_eq:
  assumes "t = 2 \<and> n = 78 \<or> t = 5 \<and> n = 1287"
  shows "lookup_table t n = Inr (fronts t counts @ rev (backs t counts))"
  by (simp add: lookup_table_def lookup_table_state_eq [OF assms])

lemma length_table:
  "length (fronts t counts @ rev (backs t counts)) = 13 choose t"
  using table_fits [of t] by simp

text \<open>
  C6. Both calls of \<^verbatim>\<open>_lookup_table\<close> return. The table for 5-bit patterns has 1287
  entries, each a value below \<open>2 ^ 13\<close> with exactly 5 bits set, pairwise distinct; the
  table for 2-bit patterns has 78 entries, each a value below \<open>2 ^ 13\<close> with exactly 2
  bits set, pairwise distinct; and no value is in both tables.
\<close>

theorem lookup_tables_entries:
  "\<exists>lut5 lut2.
     lookup_table 5 1287 = Inr lut5 \<and> lookup_table 2 78 = Inr lut2
     \<and> length lut5 = 1287
     \<and> list_all (\<lambda>v. 0 \<le> v \<and> v < 2 ^ 13 \<and> card {i. bit v i} = 5) lut5
     \<and> distinct lut5
     \<and> length lut2 = 78
     \<and> list_all (\<lambda>v. 0 \<le> v \<and> v < 2 ^ 13 \<and> card {i. bit v i} = 2) lut2
     \<and> distinct lut2
     \<and> set lut5 \<inter> set lut2 = {}"
proof (intro exI conjI)
  show "lookup_table 5 1287 = Inr (fronts 5 counts @ rev (backs 5 counts))"
    by (rule lookup_table_eq) simp
  show "lookup_table 2 78 = Inr (fronts 2 counts @ rev (backs 2 counts))"
    by (rule lookup_table_eq) simp
  show "length (fronts 5 counts @ rev (backs 5 counts)) = 1287"
    by (simp only: length_table choose_13_5)
  show "length (fronts 2 counts @ rev (backs 2 counts)) = 78"
    by (simp only: length_table choose_13_2)
  show "list_all (\<lambda>v. 0 \<le> v \<and> v < 2 ^ 13 \<and> card {i. bit v i} = 5)
          (fronts 5 counts @ rev (backs 5 counts))"
    unfolding list_all_iff using table_mem [of _ 5] by simp
  show "list_all (\<lambda>v. 0 \<le> v \<and> v < 2 ^ 13 \<and> card {i. bit v i} = 2)
          (fronts 2 counts @ rev (backs 2 counts))"
    unfolding list_all_iff using table_mem [of _ 2] by simp
  show "distinct (fronts 5 counts @ rev (backs 5 counts))"
    by (rule distinct_table)
  show "distinct (fronts 2 counts @ rev (backs 2 counts))"
    by (rule distinct_table)
  show "set (fronts 5 counts @ rev (backs 5 counts))
          \<inter> set (fronts 2 counts @ rev (backs 2 counts)) = {}"
  proof -
    have "v \<in> set (fronts 5 counts @ rev (backs 5 counts)) \<Longrightarrow>
          v \<notin> set (fronts 2 counts @ rev (backs 2 counts))" for v
      unfolding table_mem by simp
    then show ?thesis by blast
  qed
qed

lemma table_reversal:
  assumes "t = 2 \<and> n = 78 \<or> t = 5 \<and> n = 1287"
  shows "\<exists>lut lo up.
           lookup_table_state t n = Inr (lut, lo, up) \<and> lookup_table t n = Inr lut
           \<and> lo = up + 1
           \<and> (\<forall>v\<in>set lut. reverse13 v \<noteq> v \<longrightarrow> reverse13 v \<in> set lut)
           \<and> (\<forall>i<length lut. reverse13 (lut ! i) = lut ! i \<longrightarrow> up < int i)"
proof (intro exI conjI)
  show "lookup_table_state t n =
          Inr (fronts t counts @ rev (backs t counts), int (length (fronts t counts)),
               int (length (fronts t counts)) - 1)"
    by (rule lookup_table_state_eq [OF assms])
  show "lookup_table t n = Inr (fronts t counts @ rev (backs t counts))"
    by (rule lookup_table_eq [OF assms])
  show "int (length (fronts t counts)) = int (length (fronts t counts)) - 1 + 1"
    by simp
  show "\<forall>v\<in>set (fronts t counts @ rev (backs t counts)).
          reverse13 v \<noteq> v \<longrightarrow> reverse13 v \<in> set (fronts t counts @ rev (backs t counts))"
    using table_partner by blast
  show "\<forall>i<length (fronts t counts @ rev (backs t counts)).
          reverse13 ((fronts t counts @ rev (backs t counts)) ! i)
            = (fronts t counts @ rev (backs t counts)) ! i \<longrightarrow>
          int (length (fronts t counts)) - 1 < int i"
    using table_self_reverse_tail [of _ t] by fastforce
qed

text \<open>
  C7. In each of the two tables, the 13-bit reversal of every entry that differs from its
  own reversal is an entry of the same table, and every entry that equals its own
  reversal stands at an index above the final value of \<^verbatim>\<open>lut_upper\<close>, that is, in
  the part of the table that was filled backward from the last index; the two index
  variables have met (\<^verbatim>\<open>lut_lower = lut_upper + 1\<close>), so that part is all of the
  table that the pairs have not filled.
\<close>

theorem lookup_tables_reversal:
  "(\<exists>lut lo up.
      lookup_table_state 5 1287 = Inr (lut, lo, up) \<and> lookup_table 5 1287 = Inr lut
      \<and> lo = up + 1
      \<and> (\<forall>v\<in>set lut. reverse13 v \<noteq> v \<longrightarrow> reverse13 v \<in> set lut)
      \<and> (\<forall>i<length lut. reverse13 (lut ! i) = lut ! i \<longrightarrow> up < int i))
   \<and> (\<exists>lut lo up.
      lookup_table_state 2 78 = Inr (lut, lo, up) \<and> lookup_table 2 78 = Inr lut
      \<and> lo = up + 1
      \<and> (\<forall>v\<in>set lut. reverse13 v \<noteq> v \<longrightarrow> reverse13 v \<in> set lut)
      \<and> (\<forall>i<length lut. reverse13 (lut ! i) = lut ! i \<longrightarrow> up < int i))"
  using table_reversal [of 5 1287] table_reversal [of 2 78] by simp

text \<open>
  Both parts at concrete entries: \<open>31\<close> and its reversal \<open>7936\<close> are in the first table
  and the self-reversed \<open>496\<close> is in its tail; \<open>3\<close>, \<open>6144\<close> and \<open>4097\<close> play the same
  roles in the second.
\<close>

theorem lookup_tables_reversal_witness:
  "(\<exists>lut lo up.
      lookup_table_state 5 1287 = Inr (lut, lo, up)
      \<and> 31 \<in> set lut \<and> reverse13 31 = 7936 \<and> 7936 \<in> set lut
      \<and> (\<exists>i<length lut. lut ! i = 496 \<and> reverse13 (lut ! i) = lut ! i \<and> up < int i))
   \<and> (\<exists>lut lo up.
      lookup_table_state 2 78 = Inr (lut, lo, up)
      \<and> 3 \<in> set lut \<and> reverse13 3 = 6144 \<and> 6144 \<in> set lut
      \<and> (\<exists>i<length lut. lut ! i = 4097 \<and> reverse13 (lut ! i) = lut ! i \<and> up < int i))"
proof
  from lookup_tables_reversal obtain lut lo up where
    st: "lookup_table_state 5 1287 = Inr (lut, lo, up)"
    and partner: "\<forall>v\<in>set lut. reverse13 v \<noteq> v \<longrightarrow> reverse13 v \<in> set lut"
    and tail: "\<forall>i<length lut. reverse13 (lut ! i) = lut ! i \<longrightarrow> up < int i"
    by blast
  from st have lut: "lut = fronts 5 counts @ rev (backs 5 counts)"
    by (simp add: lookup_table_state_eq)
  have a: "31 \<in> set lut" unfolding lut table_mem by (simp add: bits_31)
  with partner have b: "7936 \<in> set lut" by (auto simp: reverse13_31)
  have "496 \<in> set lut" unfolding lut table_mem by (simp add: bits_496)
  then obtain i where i: "i < length lut" "lut ! i = 496" by (auto simp: in_set_conv_nth)
  with tail have "up < int i" by (simp add: reverse13_496)
  with st a b i show "\<exists>lut lo up.
      lookup_table_state 5 1287 = Inr (lut, lo, up)
      \<and> 31 \<in> set lut \<and> reverse13 31 = 7936 \<and> 7936 \<in> set lut
      \<and> (\<exists>i<length lut. lut ! i = 496 \<and> reverse13 (lut ! i) = lut ! i \<and> up < int i)"
    by (auto simp: reverse13_31 reverse13_496)
next
  from lookup_tables_reversal obtain lut lo up where
    st: "lookup_table_state 2 78 = Inr (lut, lo, up)"
    and partner: "\<forall>v\<in>set lut. reverse13 v \<noteq> v \<longrightarrow> reverse13 v \<in> set lut"
    and tail: "\<forall>i<length lut. reverse13 (lut ! i) = lut ! i \<longrightarrow> up < int i"
    by blast
  from st have lut: "lut = fronts 2 counts @ rev (backs 2 counts)"
    by (simp add: lookup_table_state_eq)
  have a: "3 \<in> set lut" unfolding lut table_mem by (simp add: bits_3)
  with partner have b: "6144 \<in> set lut" by (auto simp: reverse13_3)
  have "4097 \<in> set lut" unfolding lut table_mem by (simp add: bits_4097)
  then obtain i where i: "i < length lut" "lut ! i = 4097" by (auto simp: in_set_conv_nth)
  with tail have "up < int i" by (simp add: reverse13_4097)
  with st a b i show "\<exists>lut lo up.
      lookup_table_state 2 78 = Inr (lut, lo, up)
      \<and> 3 \<in> set lut \<and> reverse13 3 = 6144 \<and> 6144 \<in> set lut
      \<and> (\<exists>i<length lut. lut ! i = 4097 \<and> reverse13 (lut ! i) = lut ! i \<and> up < int i)"
    by (auto simp: reverse13_3 reverse13_4097)
qed

section \<open>The split function on short input\<close>

text \<open>
  C10. For every input string of fewer than 6 characters, \<^verbatim>\<open>from_t_and_r\<close> raises the
  index error of the read \<^verbatim>\<open>tracking[5]\<close>; the constructor, and with it every field
  validation, is never reached.
\<close>

theorem from_t_and_r_short_IndexError:
  "length s < 6 \<Longrightarrow> from_t_and_r s = Inl IndexError"
  by (simp add: from_t_and_r_def getitem_def Let_def)

theorem from_t_and_r_short_IndexError_witness:
  "length ''01234'' < 6 \<and> from_t_and_r ''01234'' = Inl IndexError"
  using from_t_and_r_short_IndexError [of "''01234''"] by simp

section \<open>The range check on the mailer id\<close>

text \<open>
  C5 (as amended). The constructor checks the value of \<open>mailer_id\<close> against a range chosen
  by its length: a 9-digit mailer id must lie in \<open>900000000 .. 999999999\<close> and a 6-digit
  one in \<open>0 .. 899999\<close>. When every other field satisfies the constructor's checks, the
  record is built exactly when the mailer id is in the range for its length, and the
  constructor raises otherwise.
\<close>

theorem mailer_id_range_by_length:
  assumes "isdigit bid" and "int_str bid mod 10 \<le> 4" and "int_str bid \<le> 99"
    and "isdigit st_id" and "int_str st_id \<le> 999"
    and "isdigit mid" and "isdigit snum"
    and "(length mid = 6 \<and> length snum = 9) \<or> (length mid = 9 \<and> length snum = 6)"
    and "isdigit dzip \<or> dzip = []"
    and "length dzip = 0 \<or> length dzip = 5 \<or> length dzip = 9 \<or> length dzip = 11"
  shows "IntelligentMailBarcode bid st_id mid snum dzip =
           (if (if length mid = 9 then 900000000 \<le> int_str mid \<and> int_str mid \<le> 999999999
                else int_str mid \<le> 899999)
            then Inr \<lparr>barcode_id = bid, service_type_id = st_id, mailer_id = mid,
                      serial_num = snum, deliv_zip = dzip\<rparr>
            else Inl AssertionError)"
proof -
  have "0 \<le> int_str bid" "0 \<le> int_str st_id" "0 \<le> int_str mid"
    using assms(1,4,6) by (simp_all add: isdigit_def int_str_nonneg)
  moreover have "0 \<le> int_str bid mod 10" by simp
  ultimately show ?thesis
    using assms by (auto simp: IntelligentMailBarcode_def)
qed

theorem mailer_id_range_by_length_witness:
  "isdigit ''01'' \<and> int_str ''01'' mod 10 \<le> 4 \<and> int_str ''01'' \<le> 99
   \<and> isdigit ''234'' \<and> int_str ''234'' \<le> 999
   \<and> isdigit ''567094'' \<and> isdigit ''987654321''
   \<and> length ''567094'' = 6 \<and> length ''987654321'' = 9
   \<and> isdigit ''01234567891'' \<and> length ''01234567891'' = 11
   \<and> int_str ''567094'' \<le> 899999
   \<and> IntelligentMailBarcode ''01'' ''234'' ''567094'' ''987654321'' ''01234567891'' =
       Inr \<lparr>barcode_id = ''01'', service_type_id = ''234'', mailer_id = ''567094'',
            serial_num = ''987654321'', deliv_zip = ''01234567891''\<rparr>"
  using mailer_id_range_by_length
    [of "''01''" "''234''" "''567094''" "''987654321''" "''01234567891''"]
  by (simp add: int_str_def digit_val_def)

text \<open>
  The claim as first stated fails: \<^verbatim>\<open>900000\<close> is a 6-digit mailer id with a value in
  \<open>0 .. 999999\<close>, the other fields are valid (the same call with \<^verbatim>\<open>899999\<close> succeeds),
  and the constructor raises.
\<close>

theorem six_digit_mailer_id_rejected:
  "length ''900000'' = 6 \<and> isdigit ''900000'' \<and> 0 \<le> int_str ''900000''
   \<and> int_str ''900000'' \<le> 999999
   \<and> IntelligentMailBarcode ''00'' ''000'' ''900000'' ''000000000'' '''' = Inl AssertionError
   \<and> IntelligentMailBarcode ''00'' ''000'' ''899999'' ''000000000'' '''' =
       Inr \<lparr>barcode_id = ''00'', service_type_id = ''000'', mailer_id = ''899999'',
            serial_num = ''000000000'', deliv_zip = ''''\<rparr>"
  by (simp add: IntelligentMailBarcode_def int_str_def digit_val_def)

section \<open>Records with a two-digit barcode id and a three-digit service type id\<close>

text \<open>
  The lemmas of this section are about the records the constructor accepts whose
  \<open>barcode_id\<close> has two digits and whose \<open>service_type_id\<close> has three, the lengths the
  messages of the constructor's assertions ask for. On these records the tracking
  projection has 20 digits, its character at offset 5 tells the length of the mailer id,
  splitting tracking + routing gives the record back, the composed integer is below
  \<open>2 ^ 103\<close>, every codeword is in range, and \<^verbatim>\<open>encode\<close> returns 65 bar symbols
  without printing.
\<close>

lemma accepted_fields:
  assumes "IntelligentMailBarcode bid st_id mid snum dzip = Inr r"
  shows "r = \<lparr>barcode_id = bid, service_type_id = st_id, mailer_id = mid,
               serial_num = snum, deliv_zip = dzip\<rparr>"
    and "isdigit bid" and "isdigit st_id" and "isdigit mid" and "isdigit snum"
    and "isdigit dzip \<or> dzip = []"
    and "int_str bid mod 10 \<le> 4" and "int_str bid \<le> 99" and "int_str st_id \<le> 999"
    and "length mid = 9 \<and> length snum = 6 \<and> 900000000 \<le> int_str mid
           \<and> int_str mid \<le> 999999999
         \<or> length mid = 6 \<and> length snum = 9 \<and> int_str mid \<le> 899999"
    and "length dzip = 0 \<or> length dzip = 5 \<or> length dzip = 9 \<or> length dzip = 11"
  using assms unfolding IntelligentMailBarcode_def
  by (simp_all split: if_splits) auto

lemma tracking_length_20:
  assumes "IntelligentMailBarcode bid st_id mid snum dzip = Inr r"
    and "length bid = 2" and "length st_id = 3"
  shows "length (tracking r) = 20"
  using accepted_fields(1,10) [OF assms(1)] assms(2,3) by (auto simp: tracking_def)

lemma tracking_offset_5:
  assumes "IntelligentMailBarcode bid st_id mid snum dzip = Inr r"
    and "length bid = 2" and "length st_id = 3"
  shows "getitem (tracking r) 5 = Inr (hd mid)"
    and "hd mid = CHR ''9'' \<longleftrightarrow> length (mailer_id r) = 9"
proof -
  note f = accepted_fields [OF assms(1)]
  from f(10) have "mid \<noteq> []" by auto
  then have "(bid @ st_id @ mid @ snum) ! 5 = hd mid"
    using assms(2,3) by (simp add: nth_append hd_conv_nth)
  moreover have "length (tracking r) = 20"
    by (rule tracking_length_20 [OF assms])
  ultimately show "getitem (tracking r) 5 = Inr (hd mid)"
    using f(1) by (simp add: getitem_def tracking_def)
  from f(4) have d: "list_all is_digit_char mid" by (simp add: isdigit_def)
  from f(10) show "hd mid = CHR ''9'' \<longleftrightarrow> length (mailer_id r) = 9"
    using nine_digit_mailer_starts_with_9 [OF _ d] six_digit_mailer_not_9 [OF _ d] f(1)
    by auto
qed

lemma from_t_and_r_str_imb:
  assumes "IntelligentMailBarcode bid st_id mid snum dzip = Inr r"
    and "length bid = 2" and "length st_id = 3"
  shows "from_t_and_r (str_imb r) = Inr r"
proof -
  note f = accepted_fields [OF assms(1)]
  note o = tracking_offset_5 [OF assms]
  have t20: "length (tracking r) = 20"
    by (rule tracking_length_20 [OF assms])
  have trk: "take 20 (str_imb r) = tracking r"
    by (simp add: str_imb_def t20)
  have "drop 20 (str_imb r) = routing r"
    by (simp add: str_imb_def t20)
  with f(1) have rtg: "drop 20 (str_imb r) = dzip"
    by (simp add: routing_def)
  have b: "slice 0 2 (tracking r) = bid" and st: "slice 2 5 (tracking r) = st_id"
    using assms(2,3) f(1) by (simp_all add: slice_def tracking_def)
  show ?thesis
  proof (cases "length mid = 9")
    case True
    with f(10) have "length snum = 6" by auto
    with True have "slice 5 14 (tracking r) = mid" "slice 14 20 (tracking r) = snum"
      using assms(2,3) f(1) by (simp_all add: slice_def tracking_def)
    moreover from True o f(1) have "hd mid = CHR ''9''" by simp
    ultimately show ?thesis
      unfolding from_t_and_r_def Let_def trk rtg b st o(1) bind_err_Inr
      by (simp add: assms(1))
  next
    case False
    with f(10) have l: "length mid = 6" "length snum = 9" by auto
    then have "slice 5 11 (tracking r) = mid" "slice 11 20 (tracking r) = snum"
      using assms(2,3) f(1) by (simp_all add: slice_def tracking_def)
    moreover from False o f(1) have "hd mid \<noteq> CHR ''9''" by simp
    ultimately show ?thesis
      unfolding from_t_and_r_def Let_def trk rtg b st o(1) bind_err_Inr
      by (simp add: assms(1))
  qed
qed

lemma py_int_digit: "is_digit_char c \<Longrightarrow> py_int [c] = Inr (digit_val c)"
  by (simp add: py_int_def int_str_def)

lemma tracking_loop_digits:
  "list_all is_digit_char cs \<Longrightarrow>
   tracking_loop cs rc_val = Inr (rc_val * 10 ^ length cs + int_str cs)"
proof (induction cs arbitrary: rc_val)
  case Nil
  then show ?case by simp
next
  case (Cons c cs)
  then have "tracking_loop (c # cs) rc_val
               = Inr ((rc_val * 10 + digit_val c) * 10 ^ length cs + int_str cs)"
    by (simp add: py_int_digit)
  then show ?case by (simp add: int_str_Cons algebra_simps)
qed

lemma routing_code_range:
  assumes "isdigit dzip \<or> dzip = []"
    and "length dzip = 0 \<or> length dzip = 5 \<or> length dzip = 9 \<or> length dzip = 11"
    and "deliv_zip r = dzip"
  shows "\<exists>rc. routing_code r = Inr rc \<and> 0 \<le> rc \<and> rc \<le> 101000100000"
proof (cases "dzip = []")
  case True
  with assms(3) show ?thesis by (simp add: routing_code_def routing_def)
next
  case False
  with assms(1) have d: "isdigit dzip" "list_all is_digit_char dzip"
    by (simp_all add: isdigit_def)
  then have p: "py_int dzip = Inr (int_str dzip)"
    by (simp add: py_int_def)
  from assms(3) have rt: "routing r = dzip"
    by (simp add: routing_def)
  have lo: "0 \<le> int_str dzip" and up: "int_str dzip < 10 ^ length dzip"
    using d(2) by (rule int_str_nonneg, rule int_str_upper)
  from False assms(2) consider "length dzip = 5" | "length dzip = 9" | "length dzip = 11"
    by auto
  then show ?thesis
  proof cases
    case 1
    with up have "int_str dzip < 100000" by simp
    with 1 lo show ?thesis
      by (simp add: routing_code_def rt p)
  next
    case 2
    with up have "int_str dzip < 1000000000" by simp
    with 2 lo show ?thesis
      by (simp add: routing_code_def rt p)
  next
    case 3
    with up have "int_str dzip < 100000000000" by simp
    with 3 lo show ?thesis
      by (simp add: routing_code_def rt p)
  qed
qed

lemma binary_value_range:
  assumes "IntelligentMailBarcode bid st_id mid snum dzip = Inr r"
    and "length bid = 2" and "length st_id = 3"
  shows "\<exists>rc_val. binary_value r = Inr rc_val \<and> 0 \<le> rc_val
           \<and> rc_val < 5050005000050000000000000000000"
proof -
  note f = accepted_fields [OF assms(1)]
  from assms(2) obtain b0 b1 where bid: "bid = [b0, b1]"
    by (cases bid; cases "tl bid") auto
  define rest where "rest = st_id @ mid @ snum"
  have trk: "tracking r = b0 # b1 # rest"
    using f(1) by (simp add: tracking_def bid rest_def)
  from f(2) bid have b: "is_digit_char b0" "is_digit_char b1" by simp_all
  have rest: "list_all is_digit_char rest" "length rest = 18"
    using f(3,4,5,10) assms(3) by (auto simp: rest_def isdigit_def)
  from f(1) have "deliv_zip r = dzip" by simp
  from routing_code_range [OF f(6) f(11) this] obtain rc
    where rc: "routing_code r = Inr rc" "0 \<le> rc" "rc \<le> 101000100000" by blast
  have d0: "0 \<le> digit_val b0" "digit_val b0 \<le> 9" and d1: "0 \<le> digit_val b1" "digit_val b1 \<le> 9"
    using digit_val_range b by simp_all
  have "int_str bid = digit_val b0 * 10 + digit_val b1"
    by (simp add: bid int_str_def)
  with f(7) d1 have d1': "digit_val b1 \<le> 4" by simp
  have r0: "0 \<le> int_str rest" and r1: "int_str rest < 1000000000000000000"
    using int_str_nonneg [OF rest(1)] int_str_upper [OF rest(1)] rest(2) by simp_all
  define v where "v = (rc * 10 + digit_val b0) * 5 + digit_val b1"
  have v: "0 \<le> v" "v \<le> 5050005000049"
    using rc(2,3) d0 d1(1) d1' by (simp_all add: v_def)
  have bv: "binary_value r = Inr (v * 10 ^ 18 + int_str rest)"
    unfolding binary_value_def rc(1) bind_err_Inr trk
    by (simp add: getitem_def py_int_digit b tracking_loop_digits rest v_def)
  from v(1) have "0 \<le> v * 10 ^ 18" by simp
  moreover from v(2) have "v * 10 ^ 18 \<le> 5050005000049 * 10 ^ 18"
    by (rule mult_right_mono) simp
  ultimately have "0 \<le> v * 10 ^ 18 + int_str rest"
    "v * 10 ^ 18 + int_str rest < 5050005000050000000000000000000"
    using r0 r1 by simp_all
  with bv show ?thesis by blast
qed

lemma int_div_less:
  fixes a b c :: int
  assumes "0 < c" and "a < b * c"
  shows "a div c < b"
proof (rule ccontr)
  assume "\<not> a div c < b"
  then have "b \<le> a div c" by simp
  with assms(1) have le: "b * c \<le> a div c * c" by (simp add: mult_right_mono)
  from assms(1) have m: "0 \<le> a mod c" by simp
  have "a div c * c + a mod c = a" by simp
  with m have "a div c * c \<le> a" by linarith
  with le assms(2) show False by simp
qed

lemma codeword_generation_range:
  assumes "0 \<le> rc" and "rc < 5051306733752184025300720312500"
  shows "\<exists>cw_a cw_b cw_c cw_d cw_e cw_f cw_g cw_h cw_i cw_j.
           codeword_generation rc = Inr [cw_a, cw_b, cw_c, cw_d, cw_e, cw_f, cw_g, cw_h, cw_i, cw_j]
           \<and> 0 \<le> cw_a \<and> cw_a \<le> 658
           \<and> list_all (\<lambda>cw. 0 \<le> cw \<and> cw \<le> 1364)
                [cw_b, cw_c, cw_d, cw_e, cw_f, cw_g, cw_h, cw_i]
           \<and> 0 \<le> cw_j \<and> cw_j \<le> 635"
proof -
  define r1 where "r1 = rc div 636"
  define r2 where "r2 = r1 div 1365"
  define r3 where "r3 = r2 div 1365"
  define r4 where "r4 = r3 div 1365"
  define r5 where "r5 = r4 div 1365"
  define r6 where "r6 = r5 div 1365"
  define r7 where "r7 = r6 div 1365"
  define r8 where "r8 = r7 div 1365"
  define r9 where "r9 = r8 div 1365"
  have "r1 < 7942306185144943436007421875"
    unfolding r1_def using assms(2) by (intro int_div_less) simp_all
  then have "r2 < 5818539329776515337734375"
    unfolding r2_def by (intro int_div_less) simp_all
  then have "r3 < 4262666175660450796875"
    unfolding r3_def by (intro int_div_less) simp_all
  then have "r4 < 3122832363121209375"
    unfolding r4_def by (intro int_div_less) simp_all
  then have "r5 < 2287789277011875"
    unfolding r5_def by (intro int_div_less) simp_all
  then have "r6 < 1676036100375"
    unfolding r6_def by (intro int_div_less) simp_all
  then have "r7 < 1227865275"
    unfolding r7_def by (intro int_div_less) simp_all
  then have "r8 < 899535"
    unfolding r8_def by (intro int_div_less) simp_all
  then have "r9 < 659"
    unfolding r9_def by (intro int_div_less) simp_all
  moreover have "0 \<le> r9"
  proof -
    from assms(1) have "0 \<le> r1" unfolding r1_def by (simp only: pos_imp_zdiv_nonneg_iff) 
    then have "0 \<le> r2" unfolding r2_def by (simp only: pos_imp_zdiv_nonneg_iff)
    then have "0 \<le> r3" unfolding r3_def by (simp only: pos_imp_zdiv_nonneg_iff)
    then have "0 \<le> r4" unfolding r4_def by (simp only: pos_imp_zdiv_nonneg_iff)
    then have "0 \<le> r5" unfolding r5_def by (simp only: pos_imp_zdiv_nonneg_iff)
    then have "0 \<le> r6" unfolding r6_def by (simp only: pos_imp_zdiv_nonneg_iff)
    then have "0 \<le> r7" unfolding r7_def by (simp only: pos_imp_zdiv_nonneg_iff)
    then have "0 \<le> r8" unfolding r8_def by (simp only: pos_imp_zdiv_nonneg_iff)
    then show "0 \<le> r9" unfolding r9_def by (simp only: pos_imp_zdiv_nonneg_iff)
  qed
  ultimately have a: "0 \<le> r9" "r9 \<le> 658" by simp_all
  have "codeword_generation rc =
          (if \<not> (0 \<le> r9 \<and> r9 \<le> 658) then Inl AssertionError
           else Inr [r9, r8 mod 1365, r7 mod 1365, r6 mod 1365, r5 mod 1365, r4 mod 1365,
                     r3 mod 1365, r2 mod 1365, r1 mod 1365, rc mod 636])"
    unfolding codeword_generation_def Let_def r9_def r8_def r7_def r6_def r5_def r4_def
      r3_def r2_def r1_def ..
  with a have "codeword_generation rc =
          Inr [r9, r8 mod 1365, r7 mod 1365, r6 mod 1365, r5 mod 1365, r4 mod 1365,
               r3 mod 1365, r2 mod 1365, r1 mod 1365, rc mod 636]"
    by (simp only: simp_thms if_False)
  moreover have "0 \<le> x mod 1365 \<and> x mod 1365 \<le> 1364" for x :: int
    using pos_mod_bound [of 1365 x] by simp
  moreover have "0 \<le> rc mod 636 \<and> rc mod 636 \<le> 635"
    using pos_mod_bound [of 636 rc] by simp
  ultimately show ?thesis using a by simp
qed

lemma codeword_modification_range:
  assumes "0 \<le> cw_a" "cw_a \<le> 658"
    and "list_all (\<lambda>cw. 0 \<le> cw \<and> cw \<le> 1364) [cw_b, cw_c, cw_d, cw_e, cw_f, cw_g, cw_h, cw_i]"
    and "0 \<le> cw_j" "cw_j \<le> 635"
  shows "length (codeword_modification fcs
            [cw_a, cw_b, cw_c, cw_d, cw_e, cw_f, cw_g, cw_h, cw_i, cw_j]) = 10"
    and "list_all (\<lambda>cw. 0 \<le> cw \<and> cw \<le> 1364) (codeword_modification fcs
            [cw_a, cw_b, cw_c, cw_d, cw_e, cw_f, cw_g, cw_h, cw_i, cw_j])"
  using assms by (simp_all add: codeword_modification_def)

lemma bar_construction_table_ok:
  "case bar_construction_table of Inl e \<Rightarrow> False
   | Inr bar_table \<Rightarrow> length bar_table = 65 \<and> list_all bar_map_ok bar_table"
  by (simp add: bar_construction_table_def BAR_CONSTRUCTION_TABLE_def bar_map_of_def
      bar_map_ok_def ord_def py_int_def int_str_def digit_val_def)

lemma char_loop_in_range:
  assumes "length lut5 = 1287" and "length lut2 = 78"
    and "list_all (\<lambda>cw. 0 \<le> cw \<and> cw \<le> 1364) cws"
  shows "\<exists>char_list. char_loop lut5 lut2 cws prev = Inr (char_list, [])
           \<and> length char_list = length cws"
  using assms(3)
proof (induction cws arbitrary: prev)
  case Nil
  then show ?case by simp
next
  case (Cons cw cws)
  then have cw: "0 \<le> cw" "cw \<le> 1364" and rest: "list_all (\<lambda>cw. 0 \<le> cw \<and> cw \<le> 1364) cws"
    by simp_all
  define c where "c = (if cw \<le> 1286 then lut5 ! nat cw else lut2 ! nat (cw - 1287))"
  from Cons.IH [OF rest, of "Some c"] obtain char_list
    where cl: "char_loop lut5 lut2 cws (Some c) = Inr (char_list, [])"
      "length char_list = length cws" by blast
  have "(if cw \<le> 1286 then bind_err (getitem lut5 cw) (\<lambda>c. Inr (c, []))
         else if 1287 \<le> cw \<and> cw \<le> 1364 then
           bind_err (getitem lut2 (cw - 1287)) (\<lambda>c. Inr (c, []))
         else (case prev of None \<Rightarrow> Inl UnboundLocalError
               | Some c \<Rightarrow> Inr (c, [''codeword > 1364, should not happen''])))
        = Inr (c, [])"
    using cw assms(1,2) by (simp add: c_def getitem_def)
  then have "char_loop lut5 lut2 (cw # cws) prev = Inr (c # char_list, [])"
    by (simp only: char_loop.simps bind_err_Inr cl prod.case append_Nil)
  with cl(2) show ?case by simp
qed

lemma invert_loop_length:
  assumes "\<forall>i\<in>set is. i < length char_list"
  shows "\<exists>cl. invert_loop is fcs char_list = Inr cl \<and> length cl = length char_list"
  using assms
proof (induction "is" arbitrary: char_list)
  case Nil
  then show ?case by simp
next
  case (Cons i "is")
  then have i: "i < length char_list" by simp
  show ?case
  proof (cases "fcs AND push_bit i 1 \<noteq> 0")
    case True
    from Cons.prems have "\<forall>j\<in>set is. j < length (char_list[i := char_list ! i XOR 0x1fff])"
      by simp
    from Cons.IH [OF this] True i show ?thesis
      by (simp add: getitem_def)
  next
    case False
    from Cons.prems have "\<forall>j\<in>set is. j < length char_list" by simp
    from Cons.IH [OF this] False show ?thesis by simp
  qed
qed

lemma bar_symbol_ok:
  assumes "bar_map_ok b" and "length char_list = 10"
  shows "\<exists>c. bar_symbol char_list b = Inr c \<and> c \<in> set ''ADTF''"
proof -
  from assms(1) obtain oa od ba bd where
    o: "ord (asc_char b) = Inr oa" "ord (desc_char b) = Inr od"
      "py_int (asc_bit b) = Inr ba" "py_int (desc_bit b) = Inr bd"
    and r: "65 \<le> oa" "oa \<le> 74" "65 \<le> od" "od \<le> 74"
    by (auto simp: bar_map_ok_def split: sum.splits)
  from r assms(2) have g: "getitem char_list (oa - 65) = Inr (char_list ! nat (oa - 65))"
    "getitem char_list (od - 65) = Inr (char_list ! nat (od - 65))"
    by (simp_all add: getitem_def)
  show ?thesis
    unfolding bar_symbol_def o bind_err_Inr g Let_def by simp
qed

lemma bar_loop_ok:
  assumes "\<forall>i\<in>set is. i < length bar_table"
    and "list_all bar_map_ok bar_table" and "length char_list = 10"
  shows "\<exists>enc_str. bar_loop is bar_table char_list = Inr enc_str
           \<and> length enc_str = length is \<and> set enc_str \<subseteq> set ''ADTF''"
  using assms(1)
proof (induction "is")
  case Nil
  then show ?case by simp
next
  case (Cons i "is")
  then have i: "i < length bar_table" and rest: "\<forall>j\<in>set is. j < length bar_table"
    by simp_all
  from i have g: "getitem bar_table (int i) = Inr (bar_table ! i)"
    by (simp add: getitem_def)
  from i assms(2) have "bar_map_ok (bar_table ! i)"
    by (simp add: list_all_length)
  from bar_symbol_ok [OF this assms(3)] obtain c
    where c: "bar_symbol char_list (bar_table ! i) = Inr c" "c \<in> set ''ADTF''" by blast
  from Cons.IH [OF rest] obtain enc_str
    where e: "bar_loop is bar_table char_list = Inr enc_str"
      "length enc_str = length is" "set enc_str \<subseteq> set ''ADTF''" by blast
  have "bar_loop (i # is) bar_table char_list = Inr (c # enc_str)"
    by (simp only: bar_loop.simps g c(1) e(1) bind_err_Inr)
  with c(2) e(2,3) show ?case by simp
qed

lemma encode_io_well_formed:
  assumes "IntelligentMailBarcode bid st_id mid snum dzip = Inr r"
    and "length bid = 2" and "length st_id = 3"
  shows "\<exists>enc_str. encode_io r = Inr (enc_str, []) \<and> length enc_str = 65
           \<and> set enc_str \<subseteq> set ''ADTF''"
proof -
  from binary_value_range [OF assms] obtain rc_val
    where rc: "binary_value r = Inr rc_val" "0 \<le> rc_val"
      "rc_val < 5050005000050000000000000000000" by blast
  from rc(3) have "rc_val < 5051306733752184025300720312500" by simp
  from codeword_generation_range [OF rc(2) this]
  obtain cw_a cw_b cw_c cw_d cw_e cw_f cw_g cw_h cw_i cw_j where
    cg: "codeword_generation rc_val
           = Inr [cw_a, cw_b, cw_c, cw_d, cw_e, cw_f, cw_g, cw_h, cw_i, cw_j]"
    and ca: "0 \<le> cw_a" "cw_a \<le> 658"
    and cm: "list_all (\<lambda>cw. 0 \<le> cw \<and> cw \<le> 1364)
               [cw_b, cw_c, cw_d, cw_e, cw_f, cw_g, cw_h, cw_i]"
    and cj: "0 \<le> cw_j" "cw_j \<le> 635"
    by blast
  define cws where "cws = codeword_modification (crc11 rc_val)
      [cw_a, cw_b, cw_c, cw_d, cw_e, cw_f, cw_g, cw_h, cw_i, cw_j]"
  have cws: "length cws = 10" "list_all (\<lambda>cw. 0 \<le> cw \<and> cw \<le> 1364) cws"
    unfolding cws_def by (rule codeword_modification_range [OF ca cm cj])+
  have l5: "lookup_table 5 1287 = Inr (fronts 5 counts @ rev (backs 5 counts))"
    by (rule lookup_table_eq) simp
  have l2: "lookup_table 2 78 = Inr (fronts 2 counts @ rev (backs 2 counts))"
    by (rule lookup_table_eq) simp
  have n5: "length (fronts 5 counts @ rev (backs 5 counts)) = 1287"
    by (simp only: length_table choose_13_5)
  have n2: "length (fronts 2 counts @ rev (backs 2 counts)) = 78"
    by (simp only: length_table choose_13_2)
  from char_loop_in_range [OF n5 n2 cws(2), of None] cws(1) obtain char_list where
    cl: "char_loop (fronts 5 counts @ rev (backs 5 counts))
           (fronts 2 counts @ rev (backs 2 counts)) cws None = Inr (char_list, [])"
      "length char_list = 10" by auto
  from cl(2) have "\<forall>i\<in>set [0..<10]. i < length char_list" by simp
  from invert_loop_length [OF this, of "crc11 rc_val"] cl(2) obtain char_list' where
    il: "invert_loop [0..<10] (crc11 rc_val) char_list = Inr char_list'"
      "length char_list' = 10" by auto
  from bar_construction_table_ok obtain bar_table where
    bt: "bar_construction_table = Inr bar_table" "length bar_table = 65"
      "list_all bar_map_ok bar_table"
    by (auto split: sum.splits)
  from bt(2) have "\<forall>i\<in>set [0..<65]. i < length bar_table" by simp
  from bar_loop_ok [OF this bt(3) il(2)] obtain enc_str where
    bl: "bar_loop [0..<65] bar_table char_list' = Inr enc_str"
      "length enc_str = 65" "set enc_str \<subseteq> set ''ADTF''" by auto
  have "encode_io r = Inr (enc_str, [])"
    unfolding encode_io_def rc(1) bind_err_Inr Let_def cg l5 l2
    by (simp only: cws_def [symmetric] cl(1) bind_err_Inr prod.case il(1) bt(1) bl(1))
  with bl(2,3) show ?thesis by blast
qed

lemma encode_well_formed:
  assumes "IntelligentMailBarcode bid st_id mid snum dzip = Inr r"
    and "length bid = 2" and "length st_id = 3"
  shows "\<exists>enc_str. encode r = Inr enc_str \<and> length enc_str = 65
           \<and> set enc_str \<subseteq> set ''ADTF''"
proof -
  from encode_io_well_formed [OF assms] obtain enc_str where
    "encode_io r = Inr (enc_str, [])" "length enc_str = 65" "set enc_str \<subseteq> set ''ADTF''"
    by blast
  then show ?thesis by (auto simp: encode_def)
qed

lemma codewords_well_formed:
  assumes "IntelligentMailBarcode bid st_id mid snum dzip = Inr r"
    and "length bid = 2" and "length st_id = 3"
  shows "\<exists>rc_val cws. binary_value r = Inr rc_val \<and> codeword_generation rc_val = Inr cws
           \<and> 0 \<le> cws ! 0 \<and> cws ! 0 \<le> 658
           \<and> length (codeword_modification (crc11 rc_val) cws) = 10
           \<and> list_all (\<lambda>cw. 0 \<le> cw \<and> cw \<le> 1364)
                (codeword_modification (crc11 rc_val) cws)"
proof -
  from binary_value_range [OF assms] obtain rc_val
    where rc: "binary_value r = Inr rc_val" "0 \<le> rc_val"
      "rc_val < 5050005000050000000000000000000" by blast
  from rc(3) have "rc_val < 5051306733752184025300720312500" by simp
  from codeword_generation_range [OF rc(2) this]
  obtain cw_a cw_b cw_c cw_d cw_e cw_f cw_g cw_h cw_i cw_j where
    cg: "codeword_generation rc_val
           = Inr [cw_a, cw_b, cw_c, cw_d, cw_e, cw_f, cw_g, cw_h, cw_i, cw_j]"
    and ca: "0 \<le> cw_a" "cw_a \<le> 658"
    and cm: "list_all (\<lambda>cw. 0 \<le> cw \<and> cw \<le> 1364)
               [cw_b, cw_c, cw_d, cw_e, cw_f, cw_g, cw_h, cw_i]"
    and cj: "0 \<le> cw_j" "cw_j \<le> 635"
    by blast
  note m = codeword_modification_range [OF ca cm cj, of "crc11 rc_val"]
  from rc(1) cg ca m show ?thesis
    by (intro exI [of _ rc_val] exI [of _ "[cw_a, cw_b, cw_c, cw_d, cw_e, cw_f, cw_g, cw_h, cw_i, cw_j]"])
      simp
qed

lemma binary_value_below_2_103:
  assumes "IntelligentMailBarcode bid st_id mid snum dzip = Inr r"
    and "length bid = 2" and "length st_id = 3"
  shows "\<exists>rc_val. binary_value r = Inr rc_val \<and> 0 \<le> rc_val \<and> rc_val < 2 ^ 103"
proof -
  from binary_value_range [OF assms] obtain rc_val
    where rc: "binary_value r = Inr rc_val" "0 \<le> rc_val"
      "rc_val < 5050005000050000000000000000000" by blast
  from rc(3) have "rc_val < 2 ^ 103" by simp
  with rc(1,2) show ?thesis by blast
qed

section \<open>Records whose barcode id is not two digits long\<close>

text \<open>
  The constructor checks the values of \<open>barcode_id\<close> and \<open>service_type_id\<close>
  (\<open>0 .. 99\<close>, last digit \<open>0 .. 4\<close>; \<open>0 .. 999\<close>) and never their lengths, although the
  messages of its assertions say "2-digit" and "3-digit" and the lengths of the other
  three fields are checked. It therefore accepts \<^verbatim>\<open>"1"\<close> and \<^verbatim>\<open>"000"\<close> as barcode
  ids. The records below are accepted; the lemmas evaluate the program on them.
\<close>

lemma short_barcode_id_accepted:
  "IntelligentMailBarcode ''1'' ''000'' ''900000000'' ''000000'' '''' =
     Inr \<lparr>barcode_id = ''1'', service_type_id = ''000'', mailer_id = ''900000000'',
          serial_num = ''000000'', deliv_zip = ''''\<rparr>"
  by (simp add: IntelligentMailBarcode_def int_str_def digit_val_def)

lemma long_service_type_id_accepted:
  "IntelligentMailBarcode ''00'' ''0000'' ''900000000'' ''000000'' '''' =
     Inr \<lparr>barcode_id = ''00'', service_type_id = ''0000'', mailer_id = ''900000000'',
          serial_num = ''000000'', deliv_zip = ''''\<rparr>"
  by (simp add: IntelligentMailBarcode_def int_str_def digit_val_def)

lemma shifted_fields_accepted:
  "IntelligentMailBarcode ''001'' ''23'' ''900000000'' ''000000'' '''' =
     Inr \<lparr>barcode_id = ''001'', service_type_id = ''23'', mailer_id = ''900000000'',
          serial_num = ''000000'', deliv_zip = ''''\<rparr>"
  by (simp add: IntelligentMailBarcode_def int_str_def digit_val_def)

lemma long_barcode_id_accepted:
  "IntelligentMailBarcode ''000'' ''999'' ''900000000'' ''000000'' ''99999999999'' =
     Inr \<lparr>barcode_id = ''000'', service_type_id = ''999'', mailer_id = ''900000000'',
          serial_num = ''000000'', deliv_zip = ''99999999999''\<rparr>"
  by (simp add: IntelligentMailBarcode_def int_str_def digit_val_def)

lemma long_barcode_id_binary_value:
  "binary_value \<lparr>barcode_id = ''000'', service_type_id = ''999'', mailer_id = ''900000000'',
      serial_num = ''000000'', deliv_zip = ''99999999999''\<rparr>
   = Inr 50500050000000999900000000000000"
  by (simp add: binary_value_def routing_code_def routing_def tracking_def
      py_int_def int_str_def digit_val_def getitem_def)

lemma long_barcode_id_codeword_generation:
  "codeword_generation 50500050000000999900000000000000 = Inl AssertionError"
  by (simp add: codeword_generation_def cong: let_weak_cong)

text \<open>
  C4, at the failing inputs. The constructor accepts the one-digit barcode id
  \<^verbatim>\<open>"1"\<close>, and the tracking projection of the record has 19 characters, not 20; it
  accepts the four-digit service type id \<^verbatim>\<open>"0000"\<close>, and the tracking projection has
  21 characters.
\<close>

theorem tracking_not_20_digits:
  "IntelligentMailBarcode ''1'' ''000'' ''900000000'' ''000000'' '''' =
     Inr \<lparr>barcode_id = ''1'', service_type_id = ''000'', mailer_id = ''900000000'',
          serial_num = ''000000'', deliv_zip = ''''\<rparr>
   \<and> length (tracking \<lparr>barcode_id = ''1'', service_type_id = ''000'',
        mailer_id = ''900000000'', serial_num = ''000000'', deliv_zip = ''''\<rparr>) = 19
   \<and> IntelligentMailBarcode ''00'' ''0000'' ''900000000'' ''000000'' '''' =
     Inr \<lparr>barcode_id = ''00'', service_type_id = ''0000'', mailer_id = ''900000000'',
          serial_num = ''000000'', deliv_zip = ''''\<rparr>
   \<and> length (tracking \<lparr>barcode_id = ''00'', service_type_id = ''0000'',
        mailer_id = ''900000000'', serial_num = ''000000'', deliv_zip = ''''\<rparr>) = 21"
  by (simp add: short_barcode_id_accepted long_service_type_id_accepted)
    (simp add: tracking_def)

text \<open>
  C1, at the failing input. The constructor accepts a three-digit barcode id; the
  tracking projection then has 21 digits, the composed integer is too large for ten
  codewords, and \<^verbatim>\<open>encode\<close> raises at its assertion instead of returning 65 characters.
\<close>

theorem encode_three_digit_barcode_id_raises:
  "IntelligentMailBarcode ''000'' ''999'' ''900000000'' ''000000'' ''99999999999'' =
     Inr \<lparr>barcode_id = ''000'', service_type_id = ''999'', mailer_id = ''900000000'',
          serial_num = ''000000'', deliv_zip = ''99999999999''\<rparr>
   \<and> encode \<lparr>barcode_id = ''000'', service_type_id = ''999'', mailer_id = ''900000000'',
        serial_num = ''000000'', deliv_zip = ''99999999999''\<rparr> = Inl AssertionError"
  by (simp add: long_barcode_id_accepted encode_def encode_io_def long_barcode_id_binary_value
      long_barcode_id_codeword_generation cong: let_weak_cong)

text \<open>
  C2, at the failing input. For the same accepted record the mixed-radix decomposition
  ends in the quotient 6588, above 658: the codeword-range assertion is reached and
  fails.
\<close>

theorem codeword_assertion_reached:
  "IntelligentMailBarcode ''000'' ''999'' ''900000000'' ''000000'' ''99999999999'' =
     Inr \<lparr>barcode_id = ''000'', service_type_id = ''999'', mailer_id = ''900000000'',
          serial_num = ''000000'', deliv_zip = ''99999999999''\<rparr>
   \<and> binary_value \<lparr>barcode_id = ''000'', service_type_id = ''999'', mailer_id = ''900000000'',
        serial_num = ''000000'', deliv_zip = ''99999999999''\<rparr>
       = Inr 50500050000000999900000000000000
   \<and> (50500050000000999900000000000000 :: int)
        div 636 div 1365 div 1365 div 1365 div 1365 div 1365 div 1365 div 1365 div 1365 = 6588
   \<and> codeword_generation 50500050000000999900000000000000 = Inl AssertionError"
  by (simp add: long_barcode_id_accepted long_barcode_id_binary_value
      long_barcode_id_codeword_generation)

text \<open>
  C8, at the failing input. For the same accepted record the composed integer
  \<open>rc_val\<close> is not below \<open>2 ^ 103\<close>.
\<close>

theorem binary_value_exceeds_103_bits:
  "IntelligentMailBarcode ''000'' ''999'' ''900000000'' ''000000'' ''99999999999'' =
     Inr \<lparr>barcode_id = ''000'', service_type_id = ''999'', mailer_id = ''900000000'',
          serial_num = ''000000'', deliv_zip = ''99999999999''\<rparr>
   \<and> binary_value \<lparr>barcode_id = ''000'', service_type_id = ''999'', mailer_id = ''900000000'',
        serial_num = ''000000'', deliv_zip = ''99999999999''\<rparr>
       = Inr 50500050000000999900000000000000
   \<and> (2::int) ^ 103 \<le> 50500050000000999900000000000000"
  by (simp add: long_barcode_id_accepted long_barcode_id_binary_value)

text \<open>
  C3, at the failing inputs. For the accepted record with the one-digit barcode id,
  splitting tracking + routing cuts the fields at the wrong offsets and the constructor
  raises. For the accepted record with barcode id \<^verbatim>\<open>"001"\<close> and service type id
  \<^verbatim>\<open>"23"\<close> the split succeeds and returns another record, with barcode id
  \<^verbatim>\<open>"00"\<close> and service type id \<^verbatim>\<open>"123"\<close>.
\<close>

theorem split_does_not_reconstruct:
  "IntelligentMailBarcode ''1'' ''000'' ''900000000'' ''000000'' '''' =
     Inr \<lparr>barcode_id = ''1'', service_type_id = ''000'', mailer_id = ''900000000'',
          serial_num = ''000000'', deliv_zip = ''''\<rparr>
   \<and> from_t_and_r (str_imb \<lparr>barcode_id = ''1'', service_type_id = ''000'',
        mailer_id = ''900000000'', serial_num = ''000000'', deliv_zip = ''''\<rparr>)
       = Inl AssertionError
   \<and> IntelligentMailBarcode ''001'' ''23'' ''900000000'' ''000000'' '''' =
     Inr \<lparr>barcode_id = ''001'', service_type_id = ''23'', mailer_id = ''900000000'',
          serial_num = ''000000'', deliv_zip = ''''\<rparr>
   \<and> from_t_and_r (str_imb \<lparr>barcode_id = ''001'', service_type_id = ''23'',
        mailer_id = ''900000000'', serial_num = ''000000'', deliv_zip = ''''\<rparr>)
       = Inr \<lparr>barcode_id = ''00'', service_type_id = ''123'', mailer_id = ''900000000'',
            serial_num = ''000000'', deliv_zip = ''''\<rparr>"
  by (simp add: short_barcode_id_accepted shifted_fields_accepted)
    (simp add: str_imb_def tracking_def routing_def from_t_and_r_def getitem_def slice_def
      IntelligentMailBarcode_def int_str_def digit_val_def Let_def)

text \<open>
  C9, at the failing input. For the accepted record with the one-digit barcode id the
  mailer id has 9 digits and the character at offset 5 of the tracking projection is
  \<^verbatim>\<open>0\<close>, not \<^verbatim>\<open>9\<close>.
\<close>

theorem offset_5_not_9_for_nine_digit_mailer:
  "IntelligentMailBarcode ''1'' ''000'' ''900000000'' ''000000'' '''' =
     Inr \<lparr>barcode_id = ''1'', service_type_id = ''000'', mailer_id = ''900000000'',
          serial_num = ''000000'', deliv_zip = ''''\<rparr>
   \<and> length (mailer_id \<lparr>barcode_id = ''1'', service_type_id = ''000'',
        mailer_id = ''900000000'', serial_num = ''000000'', deliv_zip = ''''\<rparr>) = 9
   \<and> getitem (tracking \<lparr>barcode_id = ''1'', service_type_id = ''000'',
        mailer_id = ''900000000'', serial_num = ''000000'', deliv_zip = ''''\<rparr>) 5
       = Inr CHR ''0''"
  by (simp add: short_barcode_id_accepted) (simp add: tracking_def getitem_def)

end
